theory Spec2Isabelle
  imports Main "HOL-Library.AList"
begin

section \<open>Networks (Python's ipaddress.IPv4Network / IPv6Network)\<close>

text \<open>
  The program handles values of \<^verbatim>\<open>ipaddress.IPv4Network\<close> and \<^verbatim>\<open>ipaddress.IPv6Network\<close>.
  Of such a value the code reads \<^verbatim>\<open>prefixlen\<close>, \<^verbatim>\<open>max_prefixlen\<close> and \<^verbatim>\<open>subnets(prefixlen_diff=1)\<close>.
  A network is its family, the integer of its network address and its prefix length.
\<close>

datatype family = IPv4 | IPv6

record network =
  version :: family
  network_address :: nat
  prefixlen :: nat

definition max_prefixlen :: "network \<Rightarrow> nat" where
  "max_prefixlen net = (case version net of IPv4 \<Rightarrow> 32 | IPv6 \<Rightarrow> 128)"

text \<open>
  The invariant every network object of the library satisfies: the prefix length is at most
  the width of the family, the host bits of the network address are zero and the address
  fits the width.
\<close>

definition valid_net :: "network \<Rightarrow> bool" where
  "valid_net net \<longleftrightarrow>
     prefixlen net \<le> max_prefixlen net \<and>
     network_address net mod 2 ^ (max_prefixlen net - prefixlen net) = 0 \<and>
     network_address net + 2 ^ (max_prefixlen net - prefixlen net) \<le> 2 ^ max_prefixlen net"

text \<open>
  \<^verbatim>\<open>net.subnets(prefixlen_diff=1)\<close> for a network that is not a single host: the library walks
  \<^verbatim>\<open>range(start, end, step)\<close> with \<^verbatim>\<open>start\<close> the network address, \<^verbatim>\<open>end\<close> one past the
  broadcast address and \<^verbatim>\<open>step\<close> half the size, which gives the lower and the upper half.
\<close>

definition subnets :: "network \<Rightarrow> network list" where
  "subnets net =
     (let step = 2 ^ (max_prefixlen net - prefixlen net - 1) in
      [net\<lparr>prefixlen := prefixlen net + 1\<rparr>,
       net\<lparr>network_address := network_address net + step, prefixlen := prefixlen net + 1\<rparr>])"

text \<open>The addresses a network covers, from the network address to the broadcast address.\<close>

definition addresses :: "network \<Rightarrow> nat set" where
  "addresses net =
     {network_address net ..< network_address net + 2 ^ (max_prefixlen net - prefixlen net)}"

definition covered :: "network list \<Rightarrow> nat set" where
  "covered nets = (\<Union>net \<in> set nets. addresses net)"

fun disjoint_ranges :: "network list \<Rightarrow> bool" where
  "disjoint_ranges [] \<longleftrightarrow> True"
| "disjoint_ranges (x # xs) \<longleftrightarrow>
     (\<forall>y \<in> set xs. addresses x \<inter> addresses y = {}) \<and> disjoint_ranges xs"

section \<open>split_net_enabled\<close>

function split_net_enabled :: "network \<Rightarrow> nat set \<Rightarrow> network list" where
  "split_net_enabled net enabled =
     (if prefixlen net \<in> enabled then [net]
      else if prefixlen net \<ge> max_prefixlen net then [net]
      else concat (map (\<lambda>sub. split_net_enabled sub enabled) (subnets net)))"
  by pat_completeness auto
termination
  by (relation "measure (\<lambda>(net, enabled). max_prefixlen net - prefixlen net)")
     (auto simp: subnets_def max_prefixlen_def)

declare split_net_enabled.simps [simp del]

text \<open>The driver's loop \<^verbatim>\<open>for net in nets: for sub in split_net_enabled(net, enabled)\<close>.\<close>

definition split_all :: "network list \<Rightarrow> nat set \<Rightarrow> network list" where
  "split_all nets enabled = concat (map (\<lambda>net. split_net_enabled net enabled) nets)"

text \<open>
  Whether a call reaches the branch \<^verbatim>\<open>if net.prefixlen >= max_pfx: return [net]\<close>, in the
  call itself or in one of the calls it makes: the same tests in the same order.
\<close>

function uses_fallback :: "network \<Rightarrow> nat set \<Rightarrow> bool" where
  "uses_fallback net enabled =
     (if prefixlen net \<in> enabled then False
      else if prefixlen net \<ge> max_prefixlen net then True
      else list_ex (\<lambda>sub. uses_fallback sub enabled) (subnets net))"
  by pat_completeness auto
termination
  by (relation "measure (\<lambda>(net, enabled). max_prefixlen net - prefixlen net)")
     (auto simp: subnets_def max_prefixlen_def)

declare uses_fallback.simps [simp del]

section \<open>Python arithmetic used by the reducer\<close>

text \<open>
  \<^verbatim>\<open>int(total * (100 + reduce_pct) / 100)\<close> divides two Python integers with \<^verbatim>\<open>/\<close>, which is
  true division: the result is the binary64 float nearest to the exact quotient (ties to the
  even mantissa), and the division raises \<^verbatim>\<open>OverflowError\<close> when that float would not be
  finite. \<^verbatim>\<open>int\<close> then truncates the float toward zero. A finite float is kept as a pair
  \<open>(m, e)\<close> of integers standing for \<open>m * 2 ^ e\<close>.
\<close>

datatype py_error = OverflowError | ZeroDivisionError

type_synonym pyfloat = "int \<times> int"

fun bit_length :: "nat \<Rightarrow> nat" where
  "bit_length n = (if n = 0 then 0 else Suc (bit_length (n div 2)))"

declare bit_length.simps [simp del]

text \<open>\<open>pow2_le_quot a b d\<close> decides \<open>2 ^ d \<le> a / b\<close> for positive \<open>b\<close> in integers.\<close>

definition pow2_le_quot :: "nat \<Rightarrow> nat \<Rightarrow> int \<Rightarrow> bool" where
  "pow2_le_quot a b d \<longleftrightarrow>
     (if 0 \<le> d then b * 2 ^ nat d \<le> a else b \<le> a * 2 ^ nat (- d))"

text \<open>The binary exponent of the quotient: the \<open>e\<close> with \<open>2 ^ e \<le> a / b < 2 ^ (e + 1)\<close>.\<close>

definition quot_exponent :: "nat \<Rightarrow> nat \<Rightarrow> int" where
  "quot_exponent a b =
     (let d = int (bit_length a) - int (bit_length b)
      in if pow2_le_quot a b d then d else d - 1)"

definition round_half_even :: "nat \<Rightarrow> nat \<Rightarrow> nat" where
  "round_half_even n d =
     (let q = n div d; r = n mod d
      in if 2 * r < d then q
         else if d < 2 * r then q + 1
         else if even q then q else q + 1)"

text \<open>
  The quotient is rounded to 53 significant bits, or to a multiple of \<open>2 ^ - 1074\<close> where it is
  subnormal; \<open>ulp\<close> is the exponent of the last place kept.
\<close>

definition py_truediv :: "int \<Rightarrow> int \<Rightarrow> py_error + pyfloat" where
  "py_truediv a b =
     (if b = 0 then Inl ZeroDivisionError
      else if a = 0 then Inr (0, 0)
      else
        let x = nat \<bar>a\<bar>; y = nat \<bar>b\<bar>;
            ulp = max (quot_exponent x y - 52) (- 1074);
            m = (if 0 \<le> ulp then round_half_even x (y * 2 ^ nat ulp)
                 else round_half_even (x * 2 ^ nat (- ulp)) y);
            sign = (if (a < 0) = (b < 0) then 1 else - 1)
        in if 0 \<le> ulp \<and> 2 ^ 1024 \<le> m * 2 ^ nat ulp then Inl OverflowError
           else Inr (sign * int m, ulp))"

definition py_int :: "pyfloat \<Rightarrow> int" where
  "py_int f =
     (case f of (m, e) \<Rightarrow>
        if 0 \<le> e then m * 2 ^ nat e else sgn m * (\<bar>m\<bar> div 2 ^ nat (- e)))"

section \<open>ipset_reduce\<close>

text \<open>
  \<^verbatim>\<open>counters\<close> is a dict from prefix length to entry count, kept as an association list in
  insertion order; \<open>get counters k\<close> is \<^verbatim>\<open>counters.get(k, 0)\<close>, which is also what
  \<^verbatim>\<open>counters[k]\<close> reads on the \<^verbatim>\<open>defaultdict(int)\<close>.
\<close>

type_synonym counters = "(nat \<times> int) list"

definition get :: "counters \<Rightarrow> nat \<Rightarrow> int" where
  "get cs k = (case map_of cs k of None \<Rightarrow> 0 | Some v \<Rightarrow> v)"

text \<open>\<^verbatim>\<open>for net in networks: counters[net.prefixlen] += 1\<close>\<close>

fun count_lengths :: "network list \<Rightarrow> counters \<Rightarrow> counters" where
  "count_lengths [] cs = cs"
| "count_lengths (net # nets) cs =
     count_lengths nets (AList.update (prefixlen net) (get cs (prefixlen net) + 1) cs)"

text \<open>The acceptable ceiling.\<close>

definition compute_acceptable :: "int \<Rightarrow> int \<Rightarrow> int \<Rightarrow> py_error + int" where
  "compute_acceptable total_count reduce_pct reduce_entries =
     (case py_truediv (total_count * (100 + reduce_pct)) 100 of
        Inl err \<Rightarrow> Inl err
      | Inr f \<Rightarrow>
          let acceptable = py_int f
          in Inr (if acceptable < reduce_entries then reduce_entries else acceptable))"

text \<open>
  The inner loop \<^verbatim>\<open>for j in sorted_enabled[idx + 1:]\<close>: the first later length with a
  non-zero count.
\<close>

fun find_dest :: "counters \<Rightarrow> nat list \<Rightarrow> nat option" where
  "find_dest cs [] = None"
| "find_dest cs (j # js) = (if get cs j = 0 then find_dest cs js else Some j)"

text \<open>
  The outer loop \<^verbatim>\<open>for idx, i in enumerate(sorted_enabled)\<close> over the triple
  \<^verbatim>\<open>(best_increase, best_src, best_dst)\<close>. The list is ascending and \<open>j\<close> comes after \<open>i\<close>
  in it, so the shift \<^verbatim>\<open>1 << (j - i)\<close> is by a positive amount.
\<close>

type_synonym best = "int \<times> nat option \<times> nat option"

fun scan :: "counters \<Rightarrow> nat list \<Rightarrow> best \<Rightarrow> best" where
  "scan cs [] best = best"
| "scan cs (i # rest) best =
     (if get cs i = 0 then scan cs rest best
      else case find_dest cs rest of
             None \<Rightarrow> scan cs rest best
           | Some j \<Rightarrow>
               let multiplier = 2 ^ (j - i);
                   increase = get cs i * (multiplier - 1)
               in if increase < fst best then scan cs rest (increase, Some i, Some j)
                  else scan cs rest best)"

text \<open>The variables the loop updates: \<^verbatim>\<open>enabled\<close>, \<^verbatim>\<open>counters\<close> and \<^verbatim>\<open>total\<close>.\<close>

record reduce_state =
  st_enabled :: "nat set"
  st_counters :: counters
  st_total :: int

text \<open>The lines after the search, for the pair the search returned.\<close>

definition merge_increase :: "counters \<Rightarrow> nat \<Rightarrow> nat \<Rightarrow> int" where
  "merge_increase cs best_src best_dst =
     (let multiplier = 2 ^ (best_dst - best_src)
      in get cs best_src * multiplier - get cs best_src)"

definition apply_merge :: "reduce_state \<Rightarrow> nat \<Rightarrow> nat \<Rightarrow> reduce_state" where
  "apply_merge st best_src best_dst =
     (let cs = st_counters st;
          increase = merge_increase cs best_src best_dst;
          cs1 = AList.update best_dst (get cs best_dst + increase + get cs best_src) cs;
          cs2 = AList.update best_src 0 cs1
      in \<lparr>st_enabled = st_enabled st - {best_src}, st_counters = cs2,
         st_total = st_total st + increase\<rparr>)"

text \<open>The pair one pass of the search selects, if any.\<close>

definition choose_merge :: "int \<Rightarrow> reduce_state \<Rightarrow> (nat \<times> nat) option" where
  "choose_merge acceptable st =
     (case scan (st_counters st) (sorted_list_of_set (st_enabled st)) (acceptable * 10, None, None) of
        (best_increase, Some best_src, Some best_dst) \<Rightarrow> Some (best_src, best_dst)
      | _ \<Rightarrow> None)"

text \<open>
  One iteration of \<^verbatim>\<open>while total < acceptable\<close>: \<open>None\<close> when the loop ends (the condition
  is false, or one of the two \<^verbatim>\<open>break\<close>s is taken), the next state otherwise.
\<close>

definition loop_step :: "int \<Rightarrow> reduce_state \<Rightarrow> reduce_state option" where
  "loop_step acceptable st =
     (if st_total st < acceptable then
        (case choose_merge acceptable st of
           None \<Rightarrow> None
         | Some (best_src, best_dst) \<Rightarrow>
             if st_total st + merge_increase (st_counters st) best_src best_dst > acceptable then None
             else Some (apply_merge st best_src best_dst))
      else None)"

text \<open>
  The loop ends: a pass that goes on removes \<^verbatim>\<open>best_src\<close>, a member of \<^verbatim>\<open>enabled\<close>, from
  that finite set.
\<close>

lemma scan_source_mem:
  "scan cs xs best = (inc, Some i, dst) \<Longrightarrow> fst (snd best) = Some i \<or> i \<in> set xs"
proof (induction xs arbitrary: best)
  case Nil
  then show ?case by auto
next
  case (Cons x xs)
  show ?case
  proof (cases "get cs x = 0")
    case True
    with Cons.prems have "scan cs xs best = (inc, Some i, dst)" by simp
    from Cons.IH [OF this] show ?thesis by auto
  next
    case nz: False
    show ?thesis
    proof (cases "find_dest cs xs")
      case None
      with nz Cons.prems have "scan cs xs best = (inc, Some i, dst)" by simp
      from Cons.IH [OF this] show ?thesis by auto
    next
      case (Some j)
      show ?thesis
      proof (cases "get cs x * (2 ^ (j - x) - 1) < fst best")
        case True
        with nz Some Cons.prems
        have "scan cs xs (get cs x * (2 ^ (j - x) - 1), Some x, Some j) = (inc, Some i, dst)"
          by (simp add: Let_def)
        from Cons.IH [OF this] show ?thesis by auto
      next
        case False
        with nz Some Cons.prems have "scan cs xs best = (inc, Some i, dst)"
          by (simp add: Let_def)
        from Cons.IH [OF this] show ?thesis by auto
      qed
    qed
  qed
qed

lemma choose_merge_mem:
  assumes "choose_merge acceptable st = Some (i, j)"
  shows "finite (st_enabled st) \<and> i \<in> st_enabled st"
proof -
  from assms obtain inc where
    sc: "scan (st_counters st) (sorted_list_of_set (st_enabled st)) (acceptable * 10, None, None)
          = (inc, Some i, Some j)"
    by (auto simp: choose_merge_def split: prod.splits option.splits)
  from scan_source_mem [OF sc] have mem: "i \<in> set (sorted_list_of_set (st_enabled st))"
    by simp
  have fin: "finite (st_enabled st)"
  proof (rule ccontr)
    assume "\<not> finite (st_enabled st)"
    then have "sorted_list_of_set (st_enabled st) = []"
      by simp
    with mem show False by simp
  qed
  with mem show ?thesis by simp
qed

lemma loop_step_card:
  assumes "loop_step acceptable st = Some st'"
  shows "card (st_enabled st') < card (st_enabled st)"
proof -
  from assms obtain i j where ch: "choose_merge acceptable st = Some (i, j)"
    and st': "st' = apply_merge st i j"
    by (auto simp: loop_step_def split: if_splits option.splits)
  from choose_merge_mem [OF ch] have "card (st_enabled st - {i}) < card (st_enabled st)"
    by (intro card_Diff1_less) simp_all
  moreover have "st_enabled st' = st_enabled st - {i}"
    by (simp add: st' apply_merge_def Let_def)
  ultimately show ?thesis by simp
qed

text \<open>The loop \<^verbatim>\<open>while total < acceptable\<close>, from a state to the state it leaves.\<close>

function reduce_loop :: "int \<Rightarrow> reduce_state \<Rightarrow> reduce_state" where
  "reduce_loop acceptable st =
     (case loop_step acceptable st of
        None \<Rightarrow> st
      | Some st' \<Rightarrow> reduce_loop acceptable st')"
  by pat_completeness auto
termination
  by (relation "measure (\<lambda>(acceptable, st). card (st_enabled st))")
     (auto dest: loop_step_card)

text \<open>The states at the head of the loop, one per test of the loop condition, in order.\<close>

function loop_trace :: "int \<Rightarrow> reduce_state \<Rightarrow> reduce_state list" where
  "loop_trace acceptable st =
     st # (case loop_step acceptable st of
             None \<Rightarrow> []
           | Some st' \<Rightarrow> loop_trace acceptable st')"
  by pat_completeness auto
termination
  by (relation "measure (\<lambda>(acceptable, st). card (st_enabled st))")
     (auto dest: loop_step_card)

declare reduce_loop.simps [simp del] loop_trace.simps [simp del]

text \<open>
  The state before the loop: the tally of the native prefix lengths, \<^verbatim>\<open>set(counters.keys())\<close>
  and \<^verbatim>\<open>sum(counters.values())\<close>.
\<close>

definition initial_state :: "network list \<Rightarrow> reduce_state" where
  "initial_state networks =
     (let cs = count_lengths networks []
      in \<lparr>st_enabled = set (map fst cs), st_counters = cs, st_total = sum_list (map snd cs)\<rparr>)"

text \<open>
  \<^verbatim>\<open>ipset_reduce\<close>. The first assignment to \<^verbatim>\<open>enabled\<close> from \<^verbatim>\<open>max_prefix\<close> is overwritten before
  it is read, and \<^verbatim>\<open>verbose\<close> only prints.
\<close>

definition ipset_reduce :: "network list \<Rightarrow> int \<Rightarrow> int \<Rightarrow> nat \<Rightarrow> py_error + nat set" where
  "ipset_reduce networks reduce_pct reduce_entries max_prefix =
     (let st = initial_state networks
      in case compute_acceptable (st_total st) reduce_pct reduce_entries of
           Inl err \<Rightarrow> Inl err
         | Inr acceptable \<Rightarrow> Inr (st_enabled (reduce_loop acceptable st)))"

section \<open>The greedy choice, as the specification words it\<close>

text \<open>
  The cost of eliminating length \<open>i\<close> into length \<open>j\<close>: each entry of length \<open>i\<close> becomes
  \<open>2 ^ (j - i)\<close> entries of length \<open>j\<close>.
\<close>

definition merge_cost :: "counters \<Rightarrow> nat \<Rightarrow> nat \<Rightarrow> int" where
  "merge_cost cs i j = get cs i * (2 ^ (j - i) - 1)"

text \<open>
  A candidate pair: \<open>i\<close> is an enabled length with a non-zero count and \<open>j\<close> is the nearest
  strictly longer enabled length with a non-zero count.
\<close>

definition is_candidate :: "nat set \<Rightarrow> counters \<Rightarrow> nat \<Rightarrow> nat \<Rightarrow> bool" where
  "is_candidate en cs i j \<longleftrightarrow>
     i \<in> en \<and> get cs i \<noteq> 0 \<and> j \<in> en \<and> get cs j \<noteq> 0 \<and> i < j \<and>
     (\<forall>k \<in> en. i < k \<and> k < j \<longrightarrow> get cs k = 0)"

text \<open>
  What one pass of the search returns from the triple \<open>best\<close>: that triple when no candidate
  costs less than its first component, otherwise a candidate of least cost, the one with the
  shortest source among those of equal cost.
\<close>

definition scan_spec :: "counters \<Rightarrow> nat set \<Rightarrow> best \<Rightarrow> best \<Rightarrow> bool" where
  "scan_spec cs en best r \<longleftrightarrow>
     (r = best \<and> (\<forall>i j. is_candidate en cs i j \<longrightarrow> fst best \<le> merge_cost cs i j)) \<or>
     (\<exists>i j. r = (merge_cost cs i j, Some i, Some j) \<and> is_candidate en cs i j \<and>
        merge_cost cs i j < fst best \<and>
        (\<forall>i' j'. is_candidate en cs i' j' \<longrightarrow>
           merge_cost cs i j \<le> merge_cost cs i' j' \<and>
           (merge_cost cs i' j' = merge_cost cs i j \<longrightarrow> i \<le> i')))"

text \<open>The counters of a state are not negative.\<close>

definition counts_nonneg :: "reduce_state \<Rightarrow> bool" where
  "counts_nonneg st \<longleftrightarrow> (\<forall>k. 0 \<le> get (st_counters st) k)"

section \<open>Example inputs\<close>

text \<open>10.0.0.0/30, 10.0.0.8/32 and 10.0.0.10/32.\<close>

definition example_networks :: "network list" where
  "example_networks =
     [\<lparr>version = IPv4, network_address = 167772160, prefixlen = 30\<rparr>,
      \<lparr>version = IPv4, network_address = 167772168, prefixlen = 32\<rparr>,
      \<lparr>version = IPv4, network_address = 167772170, prefixlen = 32\<rparr>]"

text \<open>Four /30 networks from 10.0.0.0 and a hundred /32 hosts from 10.0.4.0, none adjacent.\<close>

definition scenario_c :: "network list" where
  "scenario_c =
     map (\<lambda>k. \<lparr>version = IPv4, network_address = 167772160 + 8 * k, prefixlen = 30\<rparr>) [0..<4] @
     map (\<lambda>k. \<lparr>version = IPv4, network_address = 167773184 + 2 * k, prefixlen = 32\<rparr>) [0..<100]"

text \<open>10.0.0.0/30, 10.0.0.8/31 and 10.0.0.16/32: one range of each of three lengths.\<close>

definition tie_networks :: "network list" where
  "tie_networks =
     [\<lparr>version = IPv4, network_address = 167772160, prefixlen = 30\<rparr>,
      \<lparr>version = IPv4, network_address = 167772168, prefixlen = 31\<rparr>,
      \<lparr>version = IPv4, network_address = 167772176, prefixlen = 32\<rparr>]"

text \<open>The host ::1/128.\<close>

definition single_host :: "network list" where
  "single_host = [\<lparr>version = IPv6, network_address = 1, prefixlen = 128\<rparr>]"

section \<open>Properties of the splitter\<close>

lemma max_prefixlen_subnets:
  "sub \<in> set (subnets net) \<Longrightarrow> max_prefixlen sub = max_prefixlen net"
  by (auto simp: subnets_def max_prefixlen_def)

lemma prefixlen_subnets:
  "sub \<in> set (subnets net) \<Longrightarrow> prefixlen sub = prefixlen net + 1"
  by (auto simp: subnets_def)

lemma split_native:
  "prefixlen net \<in> enabled \<Longrightarrow> split_net_enabled net enabled = [net]"
  by (simp add: split_net_enabled.simps)

lemma split_all_native:
  "\<forall>net \<in> set nets. prefixlen net \<in> enabled \<Longrightarrow> split_all nets enabled = nets"
  by (induction nets) (simp_all add: split_all_def split_native)

lemma split_prefixlen:
  "prefixlen net \<le> max_prefixlen net \<Longrightarrow> sub \<in> set (split_net_enabled net enabled) \<Longrightarrow>
   (prefixlen sub \<in> enabled \<or> prefixlen sub = max_prefixlen net) \<and>
   max_prefixlen sub = max_prefixlen net"
proof (induction net enabled arbitrary: sub rule: split_net_enabled.induct)
  case (1 net enabled)
  show ?case
  proof (cases "prefixlen net \<in> enabled \<or> prefixlen net \<ge> max_prefixlen net")
    case True
    with "1.prems" show ?thesis
      by (auto simp: split_net_enabled.simps [of net] split: if_splits)
  next
    case False
    with "1.prems" obtain half where
      half: "half \<in> set (subnets net)" and sub: "sub \<in> set (split_net_enabled half enabled)"
      by (auto simp: split_net_enabled.simps [of net])
    have "prefixlen half \<le> max_prefixlen half"
      using False half by (simp add: prefixlen_subnets max_prefixlen_subnets)
    with "1.IH" [OF _ _ half _ sub] False half show ?thesis
      by (simp add: max_prefixlen_subnets)
  qed
qed

lemma disjoint_ranges_append:
  "disjoint_ranges (xs @ ys) \<longleftrightarrow>
     disjoint_ranges xs \<and> disjoint_ranges ys \<and>
     (\<forall>x \<in> set xs. \<forall>y \<in> set ys. addresses x \<inter> addresses y = {})"
  by (induction xs) auto

lemma covered_append: "covered (xs @ ys) = covered xs \<union> covered ys"
  by (auto simp: covered_def)

lemma covered_single: "covered [net] = addresses net"
  by (simp add: covered_def)

lemma addresses_in_covered: "net \<in> set nets \<Longrightarrow> addresses net \<subseteq> covered nets"
  by (auto simp: covered_def)

lemma subnets_halves:
  assumes "prefixlen net < max_prefixlen net"
  shows "\<exists>lo hi. subnets net = [lo, hi] \<and> addresses lo \<union> addresses hi = addresses net \<and>
           addresses lo \<inter> addresses hi = {}"
proof -
  define k where "k = max_prefixlen net - prefixlen net - 1"
  have W: "max_prefixlen net - prefixlen net = Suc k"
    using assms by (simp add: k_def)
  have mp: "max_prefixlen (net\<lparr>prefixlen := Suc (prefixlen net)\<rparr>) = max_prefixlen net"
    "max_prefixlen (net\<lparr>network_address := a, prefixlen := Suc (prefixlen net)\<rparr>)
       = max_prefixlen net" for a
    by (simp_all add: max_prefixlen_def)
  have k': "max_prefixlen net - Suc (prefixlen net) = k"
    by (simp add: k_def)
  show ?thesis
    by (auto simp: subnets_def addresses_def Let_def mp k' W k_def [symmetric])
qed

lemma valid_subnets:
  assumes "valid_net net" "prefixlen net < max_prefixlen net" "sub \<in> set (subnets net)"
  shows "valid_net sub"
proof -
  define k where "k = max_prefixlen net - prefixlen net - 1"
  have W: "max_prefixlen net - prefixlen net = Suc k"
    using assms by (simp add: k_def)
  have k': "max_prefixlen net - Suc (prefixlen net) = k"
    by (simp add: k_def)
  from assms(1) have dvd: "2 * 2 ^ k dvd network_address net"
    and le: "network_address net + 2 * 2 ^ k \<le> 2 ^ max_prefixlen net"
    by (simp_all add: valid_net_def W mod_eq_0_iff_dvd)
  from dvd have d2: "(2::nat) ^ k dvd network_address net"
    using dvd_mult_right by blast
  have ms: "max_prefixlen sub = max_prefixlen net" "prefixlen sub = Suc (prefixlen net)"
    using assms(3) by (simp_all add: max_prefixlen_subnets prefixlen_subnets)
  from assms(3) have "network_address sub = network_address net \<or>
      network_address sub = network_address net + 2 ^ k"
    by (auto simp: subnets_def k_def)
  then show ?thesis
    using d2 le assms(2) by (auto simp: valid_net_def ms k' mod_eq_0_iff_dvd)
qed

lemma split_valid:
  "valid_net net \<Longrightarrow> sub \<in> set (split_net_enabled net enabled) \<Longrightarrow> valid_net sub"
proof (induction net enabled arbitrary: sub rule: split_net_enabled.induct)
  case (1 net enabled)
  show ?case
  proof (cases "prefixlen net \<in> enabled \<or> prefixlen net \<ge> max_prefixlen net")
    case True
    with "1.prems" show ?thesis
      by (auto simp: split_net_enabled.simps [of net] split: if_splits)
  next
    case False
    with "1.prems" obtain half where
      half: "half \<in> set (subnets net)" and sub: "sub \<in> set (split_net_enabled half enabled)"
      by (auto simp: split_net_enabled.simps [of net])
    have "valid_net half"
      using False half "1.prems"(1) by (simp add: valid_subnets)
    with "1.IH" [OF _ _ half _ sub] False show ?thesis
      by simp
  qed
qed

lemma split_covers:
  "covered (split_net_enabled net enabled) = addresses net \<and>
   disjoint_ranges (split_net_enabled net enabled)"
proof (induction net enabled rule: split_net_enabled.induct)
  case (1 net enabled)
  show ?case
  proof (cases "prefixlen net \<in> enabled \<or> prefixlen net \<ge> max_prefixlen net")
    case True
    then show ?thesis
      by (auto simp: split_net_enabled.simps [of net] covered_single)
  next
    case False
    then have lt: "prefixlen net < max_prefixlen net" by simp
    from subnets_halves [OF lt] obtain lo hi where
      sn: "subnets net = [lo, hi]" and un: "addresses lo \<union> addresses hi = addresses net"
      and dj: "addresses lo \<inter> addresses hi = {}"
      by blast
    have split: "split_net_enabled net enabled =
        split_net_enabled lo enabled @ split_net_enabled hi enabled"
      using False by (simp add: split_net_enabled.simps [of net] sn)
    have lo: "covered (split_net_enabled lo enabled) = addresses lo"
      "disjoint_ranges (split_net_enabled lo enabled)"
      using "1.IH" [of lo] False sn by simp_all
    have hi: "covered (split_net_enabled hi enabled) = addresses hi"
      "disjoint_ranges (split_net_enabled hi enabled)"
      using "1.IH" [of hi] False sn by simp_all
    have cross: "addresses x \<inter> addresses y = {}"
      if "x \<in> set (split_net_enabled lo enabled)" "y \<in> set (split_net_enabled hi enabled)"
      for x y
    proof -
      have "addresses x \<subseteq> addresses lo" "addresses y \<subseteq> addresses hi"
        using that addresses_in_covered lo(1) hi(1) by blast+
      with dj show ?thesis by blast
    qed
    show ?thesis
      using lo hi un cross by (simp add: split covered_append disjoint_ranges_append)
  qed
qed

lemma split_all_Cons:
  "split_all (net # nets) enabled = split_net_enabled net enabled @ split_all nets enabled"
  by (simp add: split_all_def)

lemma split_all_covers: "covered (split_all nets enabled) = covered nets"
proof (induction nets)
  case Nil
  show ?case by (simp add: split_all_def)
next
  case (Cons net nets)
  then show ?case
    using split_covers [of net enabled]
    by (simp add: split_all_Cons covered_append) (simp add: covered_def)
qed

lemma split_all_disjoint:
  "disjoint_ranges nets \<Longrightarrow> disjoint_ranges (split_all nets enabled)"
proof (induction nets)
  case Nil
  show ?case by (simp add: split_all_def)
next
  case (Cons net nets)
  have cross: "addresses x \<inter> addresses y = {}"
    if "x \<in> set (split_net_enabled net enabled)" "y \<in> set (split_all nets enabled)" for x y
  proof -
    have "addresses x \<subseteq> addresses net"
      using that(1) addresses_in_covered split_covers [of net enabled] by blast
    moreover have "addresses y \<subseteq> covered nets"
      using that(2) addresses_in_covered split_all_covers [of nets enabled] by blast
    moreover have "addresses net \<inter> covered nets = {}"
      using Cons.prems by (auto simp: covered_def)
    ultimately show ?thesis by blast
  qed
  show ?case
    using Cons split_covers [of net enabled] cross
    by (simp add: split_all_Cons disjoint_ranges_append)
qed

lemma no_fallback:
  "prefixlen net \<le> max_prefixlen net \<Longrightarrow> max_prefixlen net \<in> enabled \<Longrightarrow>
   \<not> uses_fallback net enabled"
proof (induction net enabled rule: uses_fallback.induct)
  case (1 net enabled)
  show ?case
  proof (cases "prefixlen net \<in> enabled")
    case True
    then show ?thesis by (simp add: uses_fallback.simps [of net])
  next
    case False
    with "1.prems" have lt: "prefixlen net < max_prefixlen net"
      by (cases "prefixlen net = max_prefixlen net") auto
    have "\<not> uses_fallback sub enabled" if "sub \<in> set (subnets net)" for sub
      using "1.IH" [of sub] that False lt "1.prems"
      by (simp add: max_prefixlen_subnets prefixlen_subnets)
    with False lt show ?thesis
      by (simp add: uses_fallback.simps [of net] list_ex_iff)
  qed
qed

lemma split_31:
  "split_net_enabled \<lparr>version = IPv4, network_address = 167772160, prefixlen = 31\<rparr> {32}
    = [\<lparr>version = IPv4, network_address = 167772160, prefixlen = 32\<rparr>,
       \<lparr>version = IPv4, network_address = 167772161, prefixlen = 32\<rparr>]"
  by (simp add: split_net_enabled.simps subnets_def max_prefixlen_def)

lemma split_all_valid:
  assumes "\<forall>net \<in> set nets. valid_net net" "sub \<in> set (split_all nets enabled)"
  shows "valid_net sub"
proof -
  from assms(2) obtain net where "net \<in> set nets" "sub \<in> set (split_net_enabled net enabled)"
    unfolding split_all_def by auto
  with assms(1) show ?thesis
    using split_valid by blast
qed

lemma split_30:
  "split_net_enabled \<lparr>version = IPv4, network_address = 167772160, prefixlen = 30\<rparr> {32}
    = [\<lparr>version = IPv4, network_address = 167772160, prefixlen = 32\<rparr>,
       \<lparr>version = IPv4, network_address = 167772161, prefixlen = 32\<rparr>,
       \<lparr>version = IPv4, network_address = 167772162, prefixlen = 32\<rparr>,
       \<lparr>version = IPv4, network_address = 167772163, prefixlen = 32\<rparr>]"
  by (simp add: split_net_enabled.simps subnets_def max_prefixlen_def)

section \<open>Properties of the reducer\<close>

subsection \<open>The search meets its specification\<close>

lemma find_dest_Some_iff:
  "sorted_wrt (<) js \<Longrightarrow>
   find_dest cs js = Some j \<longleftrightarrow>
     j \<in> set js \<and> get cs j \<noteq> 0 \<and> (\<forall>k \<in> set js. k < j \<longrightarrow> get cs k = 0)"
proof (induction js)
  case Nil
  show ?case by simp
next
  case (Cons x js)
  then have lt: "\<forall>y \<in> set js. x < y" and srt: "sorted_wrt (<) js"
    by simp_all
  show ?case
  proof (cases "get cs x = 0")
    case True
    with Cons.IH [OF srt] lt show ?thesis by auto
  next
    case False
    with lt show ?thesis by (auto dest: less_asym)
  qed
qed

lemma is_candidate_Cons:
  assumes "sorted_wrt (<) (x # xs)"
  shows "is_candidate (set (x # xs)) cs i j \<longleftrightarrow>
           (i = x \<and> get cs x \<noteq> 0 \<and> find_dest cs xs = Some j) \<or> is_candidate (set xs) cs i j"
proof -
  from assms have lt: "\<forall>y \<in> set xs. x < y" and srt: "sorted_wrt (<) xs"
    by simp_all
  have nx: "x \<notin> set xs" using lt by auto
  show ?thesis
  proof (cases "i = x")
    case True
    have "\<not> is_candidate (set xs) cs x j"
      using nx by (simp add: is_candidate_def)
    moreover have "is_candidate (set (x # xs)) cs x j \<longleftrightarrow>
        get cs x \<noteq> 0 \<and> find_dest cs xs = Some j"
      unfolding is_candidate_def find_dest_Some_iff [OF srt]
      using lt by auto
    ultimately show ?thesis using True by simp
  next
    case False
    have "is_candidate (set (x # xs)) cs i j \<longleftrightarrow> is_candidate (set xs) cs i j"
      unfolding is_candidate_def using lt False by (auto dest: less_asym)
    with False show ?thesis by simp
  qed
qed

lemma is_candidate_source_gt:
  "sorted_wrt (<) (x # xs) \<Longrightarrow> is_candidate (set xs) cs i j \<Longrightarrow> x < i"
  by (auto simp: is_candidate_def)

lemma scan_spec_skip:
  assumes "sorted_wrt (<) (x # xs)"
    and "\<forall>j. \<not> (get cs x \<noteq> 0 \<and> find_dest cs xs = Some j)"
    and "scan_spec cs (set xs) best r"
  shows "scan_spec cs (set (x # xs)) best r"
  using assms(2,3) unfolding scan_spec_def is_candidate_Cons [OF assms(1)] by blast

lemma scan_spec_worse:
  assumes srt: "sorted_wrt (<) (x # xs)"
    and c: "get cs x \<noteq> 0" "find_dest cs xs = Some j0"
    and ge: "fst best \<le> merge_cost cs x j0"
    and r: "scan_spec cs (set xs) best r"
  shows "scan_spec cs (set (x # xs)) best r"
proof -
  have cand: "is_candidate (set (x # xs)) cs i j \<longleftrightarrow>
      (i = x \<and> j = j0) \<or> is_candidate (set xs) cs i j" for i j
    unfolding is_candidate_Cons [OF srt] using c by auto
  from r show ?thesis
    unfolding scan_spec_def cand using ge by (elim disjE exE conjE) force+
qed

lemma scan_spec_better:
  assumes srt: "sorted_wrt (<) (x # xs)"
    and c: "get cs x \<noteq> 0" "find_dest cs xs = Some j0"
    and lt: "merge_cost cs x j0 < fst best"
    and r: "scan_spec cs (set xs) (merge_cost cs x j0, Some x, Some j0) r"
  shows "scan_spec cs (set (x # xs)) best r"
proof -
  have cand: "is_candidate (set (x # xs)) cs i j \<longleftrightarrow>
      (i = x \<and> j = j0) \<or> is_candidate (set xs) cs i j" for i j
    unfolding is_candidate_Cons [OF srt] using c by auto
  have gt: "x < i" if "is_candidate (set xs) cs i j" for i j
    using is_candidate_source_gt [OF srt that] .
  from r consider
    (same) "r = (merge_cost cs x j0, Some x, Some j0)"
      "\<forall>i j. is_candidate (set xs) cs i j \<longrightarrow> merge_cost cs x j0 \<le> merge_cost cs i j"
  | (new) i j where "r = (merge_cost cs i j, Some i, Some j)" "is_candidate (set xs) cs i j"
      "merge_cost cs i j < merge_cost cs x j0"
      "\<forall>i' j'. is_candidate (set xs) cs i' j' \<longrightarrow>
         merge_cost cs i j \<le> merge_cost cs i' j' \<and>
         (merge_cost cs i' j' = merge_cost cs i j \<longrightarrow> i \<le> i')"
    unfolding scan_spec_def by auto
  then show ?thesis
  proof cases
    case same
    have "\<forall>i' j'. is_candidate (set (x # xs)) cs i' j' \<longrightarrow>
           merge_cost cs x j0 \<le> merge_cost cs i' j' \<and>
           (merge_cost cs i' j' = merge_cost cs x j0 \<longrightarrow> x \<le> i')"
      unfolding cand using same(2) gt by (auto intro: less_imp_le)
    moreover have "is_candidate (set (x # xs)) cs x j0"
      unfolding cand by simp
    ultimately show ?thesis
      unfolding scan_spec_def using same(1) lt by blast
  next
    case new
    have "\<forall>i' j'. is_candidate (set (x # xs)) cs i' j' \<longrightarrow>
           merge_cost cs i j \<le> merge_cost cs i' j' \<and>
           (merge_cost cs i' j' = merge_cost cs i j \<longrightarrow> i \<le> i')"
      unfolding cand using new(3,4) by auto
    moreover have "is_candidate (set (x # xs)) cs i j"
      unfolding cand using new(2) by simp
    moreover have "merge_cost cs i j < fst best"
      using new(3) lt by simp
    ultimately show ?thesis
      unfolding scan_spec_def using new(1) by blast
  qed
qed

lemma scan_meets_spec:
  "sorted_wrt (<) xs \<Longrightarrow> scan_spec cs (set xs) best (scan cs xs best)"
proof (induction xs arbitrary: best)
  case Nil
  show ?case by (simp add: scan_spec_def is_candidate_def)
next
  case (Cons x xs)
  from Cons.prems have srt: "sorted_wrt (<) xs" by simp
  note IH = Cons.IH [OF srt]
  show ?case
  proof (cases "get cs x = 0")
    case True
    then show ?thesis
      using scan_spec_skip [OF Cons.prems _ IH [of best]] by simp
  next
    case nz: False
    show ?thesis
    proof (cases "find_dest cs xs")
      case None
      then show ?thesis
        using nz scan_spec_skip [OF Cons.prems _ IH [of best]] by simp
    next
      case (Some j0)
      show ?thesis
      proof (cases "merge_cost cs x j0 < fst best")
        case True
        then have "scan cs (x # xs) best = scan cs xs (merge_cost cs x j0, Some x, Some j0)"
          using nz Some by (simp add: merge_cost_def Let_def)
        then show ?thesis
          using scan_spec_better [OF Cons.prems nz Some True IH] by simp
      next
        case False
        then have "scan cs (x # xs) best = scan cs xs best"
          using nz Some by (simp add: merge_cost_def Let_def)
        then show ?thesis
          using scan_spec_worse [OF Cons.prems nz Some _ IH [of best]] False by simp
      qed
    qed
  qed
qed

lemma choose_merge_spec:
  assumes "choose_merge acceptable st = Some (i, j)"
  shows "is_candidate (st_enabled st) (st_counters st) i j \<and>
         merge_cost (st_counters st) i j < acceptable * 10 \<and>
         (\<forall>i' j'. is_candidate (st_enabled st) (st_counters st) i' j' \<longrightarrow>
            merge_cost (st_counters st) i j \<le> merge_cost (st_counters st) i' j' \<and>
            (merge_cost (st_counters st) i' j' = merge_cost (st_counters st) i j \<longrightarrow> i \<le> i'))"
proof -
  let ?xs = "sorted_list_of_set (st_enabled st)"
  from choose_merge_mem [OF assms] have fin: "finite (st_enabled st)" by simp
  then have set: "set ?xs = st_enabled st" and srt: "sorted_wrt (<) ?xs"
    by simp_all
  from assms obtain inc where
    sc: "scan (st_counters st) ?xs (acceptable * 10, None, None) = (inc, Some i, Some j)"
    by (auto simp: choose_merge_def split: prod.splits option.splits)
  from scan_meets_spec [OF srt, of "st_counters st" "(acceptable * 10, None, None)"]
  show ?thesis
    unfolding scan_spec_def sc set by auto
qed

subsection \<open>Counters and one iteration\<close>

lemma get_update:
  "get (AList.update k v cs) k' = (if k' = k then v else get cs k')"
  by (simp add: get_def update_conv')

lemma sum_update:
  "sum_list (map snd (AList.update k v cs)) = sum_list (map snd cs) - get cs k + v"
  by (induction cs) (auto simp: get_def)

lemma keys_count_lengths:
  "fst ` set (count_lengths nets cs) = fst ` set cs \<union> prefixlen ` set nets"
  by (induction nets arbitrary: cs) (auto simp: dom_update)

lemma get_count_lengths:
  "get (count_lengths nets cs) p
     = get cs p + int (length (filter (\<lambda>net. prefixlen net = p) nets))"
  by (induction nets arbitrary: cs) (auto simp: get_update)

lemma sum_count_lengths:
  "sum_list (map snd (count_lengths nets cs)) = sum_list (map snd cs) + int (length nets)"
  by (induction nets arbitrary: cs) (auto simp: sum_update)

lemma initial_enabled: "st_enabled (initial_state networks) = prefixlen ` set networks"
  using keys_count_lengths [of networks "[]"] by (simp add: initial_state_def Let_def)

lemma initial_total: "st_total (initial_state networks) = int (length networks)"
  by (simp add: initial_state_def Let_def sum_count_lengths)

lemma initial_get:
  "get (st_counters (initial_state networks)) p
     = int (length (filter (\<lambda>net. prefixlen net = p) networks))"
proof -
  have "get [] p = 0" by (simp add: get_def)
  then show ?thesis
    by (simp add: initial_state_def Let_def get_count_lengths)
qed

lemma merge_increase_nonneg: "0 \<le> get cs i \<Longrightarrow> 0 \<le> merge_increase cs i j"
proof -
  assume a: "0 \<le> get cs i"
  have "(1::int) \<le> 2 ^ (j - i)" by simp
  with a have "get cs i * 1 \<le> get cs i * 2 ^ (j - i)"
    by (rule mult_left_mono [rotated])
  then show ?thesis by (simp add: merge_increase_def Let_def)
qed

lemma merge_increase_cost: "merge_increase cs i j = merge_cost cs i j"
  by (simp add: merge_increase_def merge_cost_def Let_def algebra_simps)

lemma loop_step_cases:
  assumes "loop_step acceptable st = Some st'"
  obtains i j where "choose_merge acceptable st = Some (i, j)" "st' = apply_merge st i j"
    "st_total st < acceptable"
    "st_total st + merge_increase (st_counters st) i j \<le> acceptable"
  using assms by (auto simp: loop_step_def split: if_splits option.splits)

lemma apply_merge_fields:
  "st_enabled (apply_merge st i j) = st_enabled st - {i}"
  "st_total (apply_merge st i j) = st_total st + merge_increase (st_counters st) i j"
  "get (st_counters (apply_merge st i j)) k =
     (if k = i then 0
      else if k = j then get (st_counters st) j + merge_increase (st_counters st) i j
                           + get (st_counters st) i
      else get (st_counters st) k)"
  by (simp_all add: apply_merge_def Let_def get_update)

lemma initial_counts_nonneg: "counts_nonneg (initial_state networks)"
  by (simp add: counts_nonneg_def initial_get)

lemma loop_step_counts_nonneg:
  assumes "counts_nonneg st" "loop_step acceptable st = Some st'"
  shows "counts_nonneg st'"
proof -
  from assms(2) obtain i j where st': "st' = apply_merge st i j"
    by (rule loop_step_cases)
  from assms(1) have nn: "0 \<le> get (st_counters st) k" for k
    by (simp add: counts_nonneg_def)
  with merge_increase_nonneg [OF nn, of i j] show ?thesis
    by (simp add: counts_nonneg_def st' apply_merge_fields)
qed

lemma loop_step_monotone:
  assumes "counts_nonneg st" "loop_step acceptable st = Some st'"
  shows "st_total st \<le> st_total st' \<and> st_enabled st' \<subseteq> st_enabled st"
proof -
  from assms(2) obtain i j where st': "st' = apply_merge st i j"
    by (rule loop_step_cases)
  from assms(1) have "0 \<le> get (st_counters st) i"
    by (simp add: counts_nonneg_def)
  from merge_increase_nonneg [OF this, of j] show ?thesis
    by (auto simp: st' apply_merge_fields)
qed

lemma loop_step_below_ceiling:
  assumes "loop_step acceptable st = Some st'"
  shows "st_total st' \<le> acceptable"
  using assms by (elim loop_step_cases) (simp add: apply_merge_fields)

lemma loop_trace_Cons:
  "loop_trace acceptable st =
     st # (case loop_step acceptable st of None \<Rightarrow> [] | Some st' \<Rightarrow> loop_trace acceptable st')"
  by (rule loop_trace.simps)

lemma loop_trace_invariant:
  assumes "P st" and "\<And>s s'. P s \<Longrightarrow> loop_step acceptable s = Some s' \<Longrightarrow> P s'"
  shows "\<forall>s \<in> set (loop_trace acceptable st). P s"
  using assms
proof (induction acceptable st rule: loop_trace.induct)
  case (1 acceptable st)
  show ?case
  proof (cases "loop_step acceptable st")
    case None
    with "1.prems"(1) show ?thesis
      by (simp add: loop_trace.simps [of acceptable st])
  next
    case (Some st')
    have "P st'"
      using "1.prems"(2) [OF "1.prems"(1) Some] .
    from "1.IH" [OF Some this "1.prems"(2)] "1.prems"(1) Some show ?thesis
      by (simp add: loop_trace.simps [of acceptable st])
  qed
qed

subsection \<open>The ceiling is not below the initial total\<close>

lemma bit_length_upper: "n < 2 ^ bit_length n"
proof (induction n rule: bit_length.induct)
  case (1 n)
  show ?case
  proof (cases "n = 0")
    case True
    then show ?thesis by (simp add: bit_length.simps [of n])
  next
    case False
    from "1.IH" [OF False] have "n div 2 < 2 ^ bit_length (n div 2)" .
    then have "n < 2 * 2 ^ bit_length (n div 2)" by linarith
    with False show ?thesis by (simp add: bit_length.simps [of n])
  qed
qed

lemma bit_length_lower: "0 < n \<Longrightarrow> 2 ^ (bit_length n - 1) \<le> n"
proof (induction n rule: bit_length.induct)
  case (1 n)
  then have nz: "n \<noteq> 0" by simp
  show ?case
  proof (cases "n div 2 = 0")
    case True
    with nz have "bit_length n = 1"
      by (simp add: bit_length.simps [of n] bit_length.simps [of 0])
    with "1.prems" show ?thesis by simp
  next
    case False
    with "1.IH" [OF nz] have le: "2 ^ (bit_length (n div 2) - 1) \<le> n div 2" by simp
    from False have pos: "0 < bit_length (n div 2)"
      by (simp add: bit_length.simps [of "n div 2"])
    have "bit_length n - 1 = Suc (bit_length (n div 2) - 1)"
      using nz pos by (simp add: bit_length.simps [of n])
    with le show ?thesis by simp
  qed
qed

lemma quot_exponent_lower:
  assumes "0 < a" "0 < b" "0 \<le> quot_exponent a b"
  shows "b * 2 ^ nat (quot_exponent a b) \<le> a"
proof (cases "pow2_le_quot a b (int (bit_length a) - int (bit_length b))")
  case True
  then have e: "quot_exponent a b = int (bit_length a) - int (bit_length b)"
    by (simp add: quot_exponent_def)
  with True assms(3) show ?thesis
    by (simp add: pow2_le_quot_def)
next
  case False
  then have e: "quot_exponent a b = int (bit_length a) - int (bit_length b) - 1"
    by (simp add: quot_exponent_def)
  with assms(3) have n: "nat (quot_exponent a b) = bit_length a - 1 - bit_length b"
    and le: "bit_length b \<le> bit_length a - 1"
    by simp_all
  have "b * 2 ^ (bit_length a - 1 - bit_length b)
        \<le> 2 ^ bit_length b * 2 ^ (bit_length a - 1 - bit_length b)"
    using bit_length_upper [of b] by (simp add: less_imp_le)
  also have "\<dots> = 2 ^ (bit_length a - 1)"
    using le by (simp add: power_add [symmetric])
  also have "\<dots> \<le> a"
    using bit_length_lower [OF assms(1)] .
  finally show ?thesis by (simp add: n)
qed

lemma round_half_even_lower: "n div d \<le> round_half_even n d"
  by (simp add: round_half_even_def Let_def)

lemma py_truediv_floor:
  assumes res: "py_truediv a b = Inr f" and b: "0 < b" and t: "0 \<le> t" "t \<le> 2 ^ 53"
    and a: "b * t \<le> a"
  shows "t \<le> py_int f"
proof (cases "a = 0")
  case True
  with a b t have "t = 0"
    by (metis mult_le_0_iff not_less order_antisym)
  moreover from True res b have "f = (0, 0)" by (simp add: py_truediv_def)
  ultimately show ?thesis by (simp add: py_int_def)
next
  case False
  have a0: "0 \<le> a"
    using a b t by (meson mult_nonneg_nonneg less_imp_le order_trans)
  with False have apos: "0 < a" by simp
  define x where "x = nat a"
  define y where "y = nat b"
  define ulp where "ulp = max (quot_exponent x y - 52) (- 1074)"
  define m where "m = (if 0 \<le> ulp then round_half_even x (y * 2 ^ nat ulp)
                 else round_half_even (x * 2 ^ nat (- ulp)) y)"
  have xa: "int x = a" and yb: "int y = b" and xpos: "0 < x" and ypos: "0 < y"
    using apos b by (simp_all add: x_def y_def)
  from res have f: "f = (int m, ulp)"
    using False b apos
    by (simp add: py_truediv_def Let_def x_def y_def ulp_def m_def split: if_splits)
  have yt: "y * nat t \<le> x"
  proof -
    have "int (y * nat t) = b * t" using t yb by simp
    also have "\<dots> \<le> int x" using a xa by simp
    finally show ?thesis by linarith
  qed
  show ?thesis
  proof (cases "0 \<le> ulp")
    case True
    then have e: "quot_exponent x y = ulp + 52"
      by (simp add: ulp_def max_def split: if_splits)
    then have e0: "0 \<le> quot_exponent x y" and ne: "nat (quot_exponent x y) = nat ulp + 52"
      using True by simp_all
    from quot_exponent_lower [OF xpos ypos e0]
    have low: "y * 2 ^ nat ulp * 2 ^ 52 \<le> x"
      by (simp add: ne power_add mult.assoc)
    have m_def': "m = round_half_even x (y * 2 ^ nat ulp)"
      using True by (simp add: m_def)
    have dpos: "0 < y * 2 ^ nat ulp" using ypos by simp
    have int_res: "py_int f = int m * 2 ^ nat ulp"
      using True by (simp add: f py_int_def)
    show ?thesis
    proof (cases "ulp = 0")
      case z: True
      have "nat t \<le> x div y"
        using yt ypos by (simp add: less_eq_div_iff_mult_less_eq mult.commute)
      also have "\<dots> \<le> m"
        using round_half_even_lower [of x y] z by (simp add: m_def')
      finally show ?thesis using t z by (simp add: int_res)
    next
      case nzu: False
      have "2 ^ 52 \<le> x div (y * 2 ^ nat ulp)"
        using low dpos by (simp add: less_eq_div_iff_mult_less_eq mult.commute)
      also have "\<dots> \<le> m"
        using round_half_even_lower by (simp add: m_def')
      finally have m52: "(2::nat) ^ 52 \<le> m" .
      from nzu True have "1 \<le> nat ulp" by simp
      then have "(2::int) ^ 1 \<le> 2 ^ nat ulp"
        by (intro power_increasing) simp_all
      moreover from m52 have "(2::int) ^ 52 \<le> int m"
        by (metis of_nat_le_iff of_nat_numeral of_nat_power)
      ultimately have "(2::int) ^ 52 * 2 ^ 1 \<le> int m * 2 ^ nat ulp"
        by (intro mult_mono) simp_all
      with t show ?thesis by (simp add: int_res)
    qed
  next
    case False
    define k where "k = nat (- ulp)"
    have m_def': "m = round_half_even (x * 2 ^ k) y"
      using False by (simp add: m_def k_def)
    have int_res: "py_int f = int (m div 2 ^ k)"
      using False by (simp add: f py_int_def k_def zdiv_int sgn_if)
    have "y * (nat t * 2 ^ k) \<le> x * 2 ^ k"
      using yt by (metis mult.assoc mult_le_mono1)
    then have "nat t * 2 ^ k \<le> (x * 2 ^ k) div y"
      using ypos by (simp add: less_eq_div_iff_mult_less_eq mult.commute)
    also have "\<dots> \<le> m"
      using round_half_even_lower by (simp add: m_def')
    finally have "nat t \<le> m div 2 ^ k"
      by (simp add: less_eq_div_iff_mult_less_eq)
    with t show ?thesis by (simp add: int_res)
  qed
qed

lemma compute_acceptable_ge_total:
  assumes "compute_acceptable t reduce_pct reduce_entries = Inr acceptable"
    and "0 \<le> reduce_pct" "0 \<le> t" "t \<le> 2 ^ 53"
  shows "t \<le> acceptable"
proof -
  from assms(1) obtain f where f: "py_truediv (t * (100 + reduce_pct)) 100 = Inr f"
    and acc: "acceptable = (if py_int f < reduce_entries then reduce_entries else py_int f)"
    by (auto simp: compute_acceptable_def Let_def split: sum.splits)
  have "100 * t \<le> t * (100 + reduce_pct)"
    using assms(2,3) by (simp add: algebra_simps)
  from py_truediv_floor [OF f _ assms(3,4) this] have "t \<le> py_int f" by simp
  then show ?thesis by (simp add: acc)
qed

subsection \<open>The ceiling at concrete inputs\<close>

lemma bit_length_100: "bit_length 100 = 7" by (simp add: bit_length.simps)

lemma bit_length_600: "bit_length 600 = 10" by (simp add: bit_length.simps)

lemma truediv_600: "py_truediv 600 100 = Inr (6 * 2 ^ 50, - 50)"
  by (simp add: py_truediv_def quot_exponent_def pow2_le_quot_def bit_length_600 bit_length_100
      round_half_even_def Let_def)

lemma acceptable_3_100: "compute_acceptable 3 100 0 = Inr 6"
  by (simp add: compute_acceptable_def truediv_600 py_int_def)

lemma bit_length_inexact: "bit_length 28147497671065599 = 55" by (simp add: bit_length.simps)

lemma truediv_inexact: "py_truediv 28147497671065599 100 = Inr (2 ^ 53, - 5)"
  by (simp add: py_truediv_def quot_exponent_def pow2_le_quot_def bit_length_inexact
      bit_length_100 round_half_even_def Let_def)

lemma acceptable_inexact: "compute_acceptable 1 28147497671065499 0 = Inr 281474976710656"
  by (simp add: compute_acceptable_def truediv_inexact py_int_def)

lemma bit_length_eqI:
  assumes "0 < k" "2 ^ (k - 1) \<le> n" "n < 2 ^ k"
  shows "bit_length n = k"
proof -
  have npos: "0 < n"
    using assms(2) by (metis less_le_trans zero_less_numeral zero_less_power)
  have "(2::nat) ^ (bit_length n - 1) < 2 ^ k"
    using bit_length_lower [OF npos] assms(3) by (rule le_less_trans)
  then have a: "bit_length n - 1 < k" by simp
  have "(2::nat) ^ (k - 1) < 2 ^ bit_length n"
    using assms(2) bit_length_upper [of n] by (rule le_less_trans)
  then have b: "k - 1 < bit_length n" by simp
  from a b assms(1) show ?thesis by linarith
qed

lemma bit_length_huge: "bit_length (100 + 10 ^ 311) = 1034"
  by (rule bit_length_eqI) simp_all

lemma quot_exponent_huge: "quot_exponent (100 + 10 ^ 311) 100 = 1026"
  unfolding quot_exponent_def bit_length_huge bit_length_100
  by (simp add: pow2_le_quot_def)

lemma truediv_huge: "py_truediv (1 * (100 + 10 ^ 311)) 100 = Inl OverflowError"
proof -
  have x: "nat \<bar>(1::int) * (100 + 10 ^ 311)\<bar> = 100 + 10 ^ 311" "nat \<bar>100::int\<bar> = 100"
    by simp_all
  have nz: "(1::int) * (100 + 10 ^ 311) \<noteq> 0" "(100::int) \<noteq> 0"
    by simp_all
  have ulp: "max (quot_exponent (100 + 10 ^ 311) 100 - 52) (- 1074) = 974"
    unfolding quot_exponent_huge by simp
  have "(2::nat) ^ 52 \<le> (100 + 10 ^ 311) div (100 * 2 ^ 974)"
    by (subst less_eq_div_iff_mult_less_eq) simp_all
  then have low: "(2::nat) ^ 52 \<le> round_half_even (100 + 10 ^ 311) (100 * 2 ^ 974)"
    using round_half_even_lower by (rule order_trans)
  have "(2::nat) ^ 1024 \<le> 2 ^ 52 * 2 ^ 974" by simp
  also have "\<dots> \<le> round_half_even (100 + 10 ^ 311) (100 * 2 ^ nat 974) * 2 ^ nat 974"
    using low by simp
  finally have ov: "(2::nat) ^ 1024
      \<le> round_half_even (100 + 10 ^ 311) (100 * 2 ^ nat 974) * 2 ^ nat 974" .
  have p: "(0::int) \<le> 974" by simp
  show ?thesis
    unfolding py_truediv_def Let_def x ulp
    using nz ov p by (simp only: if_False if_True simp_thms)
qed

subsection \<open>The ceiling is exact below \<open>2 ^ 45\<close>\<close>

lemma round_half_even_upper: "round_half_even n d \<le> n div d + 1"
  by (simp add: round_half_even_def Let_def)

lemma bit_length_pos: "0 < n \<Longrightarrow> 0 < bit_length n"
  by (simp add: bit_length.simps [of n])

lemma quot_exponent_ge: "int (bit_length a) - int (bit_length b) - 1 \<le> quot_exponent a b"
  by (simp add: quot_exponent_def Let_def)

lemma py_truediv_exact:
  assumes a0: "0 \<le> a" and small: "a < 100 * 2 ^ 45"
  shows "\<exists>f. py_truediv a 100 = Inr f \<and> py_int f = a div 100"
proof (cases "a = 0")
  case True
  then show ?thesis by (simp add: py_truediv_def py_int_def)
next
  case False
  with a0 have apos: "0 < a" by simp
  define x where "x = nat a"
  define e where "e = quot_exponent x 100"
  have xpos: "0 < x" and xa: "int x = a" using apos by (simp_all add: x_def)
  have "int x < int (100 * 2 ^ 45)"
    using small xa by simp
  then have xsmall: "x < 100 * 2 ^ 45"
    by (simp only: of_nat_less_iff)
  have e_hi: "e \<le> 44"
  proof (rule ccontr)
    assume "\<not> e \<le> 44"
    then have e45: "45 \<le> e" by simp
    then have "0 \<le> quot_exponent x 100" by (simp add: e_def)
    from quot_exponent_lower [OF xpos _ this] have "100 * 2 ^ nat e \<le> x"
      by (simp add: e_def)
    moreover have "(2::nat) ^ 45 \<le> 2 ^ nat e"
      using e45 by (intro power_increasing) simp_all
    ultimately show False using xsmall by simp
  qed
  have e_lo: "- 7 \<le> e"
    using quot_exponent_ge [of x 100] bit_length_pos [OF xpos]
    by (simp add: e_def bit_length_100)
  define k where "k = nat (52 - e)"
  have k8: "8 \<le> k" using e_hi by (simp add: k_def)
  have ulp: "max (e - 52) (- 1074) = - int k"
    using e_lo e_hi by (simp add: k_def)
  define m where "m = round_half_even (x * 2 ^ k) 100"
  have res: "py_truediv a 100 = Inr (int m, - int k)"
    using apos k8
    by (simp add: py_truediv_def Let_def x_def [symmetric] e_def [symmetric] ulp m_def)
  have int_res: "py_int (int m, - int k) = int (m div 2 ^ k)"
    using k8 by (simp add: py_int_def zdiv_int sgn_if)
  define P :: nat where "P = 2 ^ k"
  define q where "q = x div 100"
  define r where "r = x mod 100"
  define u where "u = (r * P) div 100"
  have x_eq: "x = 100 * q + r"
    by (simp add: q_def r_def)
  have "r < 100" by (simp add: r_def)
  then have r99: "r \<le> 99" by simp
  have "(2::nat) ^ 8 \<le> 2 ^ k"
    using k8 by (intro power_increasing) simp_all
  then have P256: "256 \<le> P" by (simp add: P_def)
  have N: "(x * P) div 100 = q * P + u"
  proof -
    have "x * P = r * P + (q * P) * 100"
      by (simp add: x_eq algebra_simps)
    then show ?thesis by (simp add: u_def)
  qed
  have "100 * u \<le> r * P"
    by (simp add: u_def)
  also have "\<dots> \<le> 99 * P"
    using r99 by simp
  finally have u_lt: "u + 1 < P"
    using P256 by linarith
  have lo: "q * P \<le> m"
    using round_half_even_lower [of "x * P" 100] N by (simp add: m_def P_def)
  have hi: "m < (q + 1) * P"
    using round_half_even_upper [of "x * P" 100] N u_lt by (simp add: m_def P_def)
  have Ppos: "0 < P" using P256 by simp
  have "q \<le> m div P"
    using lo Ppos by (simp add: less_eq_div_iff_mult_less_eq)
  moreover have "m div P < q + 1"
    using hi Ppos by (simp add: div_less_iff_less_mult)
  ultimately have "m div P = q" by simp
  then have "int (m div 2 ^ k) = a div 100"
    using xa by (simp add: P_def q_def zdiv_int [symmetric] del: of_nat_div)
  with res int_res show ?thesis by simp
qed

lemma compute_acceptable_exact:
  assumes "0 \<le> t" "0 \<le> reduce_pct" "t * (100 + reduce_pct) < 100 * 2 ^ 45"
  shows "compute_acceptable t reduce_pct reduce_entries
           = Inr (max (t * (100 + reduce_pct) div 100) reduce_entries)"
proof -
  have "0 \<le> t * (100 + reduce_pct)"
    using assms(1,2) by simp
  from py_truediv_exact [OF this assms(3)] obtain f where
    "py_truediv (t * (100 + reduce_pct)) 100 = Inr f"
    "py_int f = t * (100 + reduce_pct) div 100"
    by blast
  then show ?thesis
    by (simp add: compute_acceptable_def Let_def max_def)
qed

lemma ipset_reduce_returns:
  assumes "0 \<le> reduce_pct" "int (length networks) * (100 + reduce_pct) < 100 * 2 ^ 45"
  shows "\<exists>result. ipset_reduce networks reduce_pct reduce_entries max_prefix = Inr result"
proof -
  have "0 \<le> int (length networks)" by simp
  from compute_acceptable_exact [OF this assms] show ?thesis
    by (simp add: ipset_reduce_def Let_def initial_total)
qed

subsection \<open>The loop\<close>

lemma loop_trace_last: "last (loop_trace acceptable st) = reduce_loop acceptable st"
proof (induction acceptable st rule: reduce_loop.induct)
  case (1 acceptable st)
  show ?case
  proof (cases "loop_step acceptable st")
    case None
    then show ?thesis
      by (simp add: loop_trace.simps [of acceptable st] reduce_loop.simps [of acceptable st])
  next
    case (Some st')
    have "loop_trace acceptable st' \<noteq> []"
      by (simp add: loop_trace.simps [of acceptable st'])
    with Some "1.IH" [OF Some] show ?thesis
      by (simp add: loop_trace.simps [of acceptable st] reduce_loop.simps [of acceptable st])
  qed
qed

lemma loop_trace_sorted:
  assumes "P st"
    and "\<And>s s'. P s \<Longrightarrow> loop_step acceptable s = Some s' \<Longrightarrow> P s' \<and> R s s'"
    and "\<And>a b c. R a b \<Longrightarrow> R b c \<Longrightarrow> R a c"
  shows "sorted_wrt R (loop_trace acceptable st)"
  using assms
proof (induction acceptable st rule: loop_trace.induct)
  case (1 acceptable st)
  show ?case
  proof (cases "loop_step acceptable st")
    case None
    then show ?thesis
      by (simp add: loop_trace.simps [of acceptable st])
  next
    case (Some st')
    from "1.prems"(2) [OF "1.prems"(1) Some] have P': "P st'" and R: "R st st'"
      by simp_all
    from "1.IH" [OF Some P' "1.prems"(2,3)]
    have srt: "sorted_wrt R (loop_trace acceptable st')" by simp
    obtain rest where tr: "loop_trace acceptable st' = st' # rest"
      using loop_trace.simps [of acceptable st'] by simp
    have "R st y" if "y \<in> set (loop_trace acceptable st')" for y
    proof (cases "y = st'")
      case True
      with R show ?thesis by simp
    next
      case False
      with that tr have "y \<in> set rest" by simp
      with srt tr have "R st' y" by simp
      with R show ?thesis by (rule "1.prems"(3))
    qed
    with srt Some show ?thesis
      by (simp add: loop_trace.simps [of acceptable st])
  qed
qed

lemma reduce_loop_in_trace:
  "reduce_loop acceptable st \<in> set (loop_trace acceptable st)"
proof -
  have "loop_trace acceptable st \<noteq> []"
    using loop_trace.simps [of acceptable st] by simp
  then have "last (loop_trace acceptable st) \<in> set (loop_trace acceptable st)"
    by (rule last_in_set)
  then show ?thesis by (simp add: loop_trace_last)
qed

lemma loop_step_source:
  assumes "loop_step acceptable st = Some st'"
  obtains i j where "st' = apply_merge st i j"
    "is_candidate (st_enabled st) (st_counters st) i j"
proof -
  from assms obtain i j where ch: "choose_merge acceptable st = Some (i, j)"
    and st': "st' = apply_merge st i j"
    by (rule loop_step_cases)
  from choose_merge_spec [OF ch] st' that show ?thesis by blast
qed

lemma ipset_reduce_result:
  assumes "ipset_reduce networks reduce_pct reduce_entries max_prefix = Inr result"
  obtains acceptable where
    "compute_acceptable (st_total (initial_state networks)) reduce_pct reduce_entries
       = Inr acceptable"
    "result = st_enabled (reduce_loop acceptable (initial_state networks))"
  using assms by (auto simp: ipset_reduce_def Let_def split: sum.splits)

lemma loop_step_keeps_max:
  assumes "W \<in> st_enabled st \<and> st_enabled st \<subseteq> {..W}"
    and "loop_step acceptable st = Some st'"
  shows "W \<in> st_enabled st' \<and> st_enabled st' \<subseteq> {..W}"
proof -
  from assms(2) obtain i j where st': "st' = apply_merge st i j"
    and cand: "is_candidate (st_enabled st) (st_counters st) i j"
    by (rule loop_step_source)
  from cand have "i < j" "j \<in> st_enabled st"
    by (simp_all add: is_candidate_def)
  with assms(1) have "i \<noteq> W" by auto
  with assms(1) show ?thesis
    by (auto simp: st' apply_merge_fields)
qed

subsection \<open>A run on the example\<close>

lemma example_initial:
  "initial_state example_networks =
     \<lparr>st_enabled = {30, 32}, st_counters = [(30, 1), (32, 2)], st_total = 3\<rparr>"
  by (simp add: initial_state_def example_networks_def get_def Let_def)

lemma example_choose:
  "choose_merge 6 \<lparr>st_enabled = {30, 32}, st_counters = [(30, 1), (32, 2)], st_total = 3\<rparr>
     = Some (30, 32)"
  by (simp add: choose_merge_def get_def Let_def)

lemma example_step:
  "loop_step 6 \<lparr>st_enabled = {30, 32}, st_counters = [(30, 1), (32, 2)], st_total = 3\<rparr>
     = Some \<lparr>st_enabled = {32}, st_counters = [(30, 0), (32, 6)], st_total = 6\<rparr>"
  by (simp add: loop_step_def example_choose merge_increase_def apply_merge_def get_def Let_def)

lemma example_stop:
  "loop_step 6 \<lparr>st_enabled = {32}, st_counters = [(30, 0), (32, 6)], st_total = 6\<rparr> = None"
  by (simp add: loop_step_def)

lemma example_trace:
  "loop_trace 6 (initial_state example_networks) =
     [\<lparr>st_enabled = {30, 32}, st_counters = [(30, 1), (32, 2)], st_total = 3\<rparr>,
      \<lparr>st_enabled = {32}, st_counters = [(30, 0), (32, 6)], st_total = 6\<rparr>]"
  unfolding example_initial
  by (subst loop_trace.simps, simp add: example_step, subst loop_trace.simps,
      simp add: example_stop)

lemma example_loop:
  "reduce_loop 6 (initial_state example_networks) =
     \<lparr>st_enabled = {32}, st_counters = [(30, 0), (32, 6)], st_total = 6\<rparr>"
  using loop_trace_last [of 6 "initial_state example_networks"] by (simp add: example_trace)

lemma example_acceptable:
  "compute_acceptable (st_total (initial_state example_networks)) 100 0 = Inr 6"
  by (simp add: example_initial acceptable_3_100)

lemma example_result: "ipset_reduce example_networks 100 0 32 = Inr {32}"
  using example_acceptable by (simp add: ipset_reduce_def Let_def example_loop)

subsection \<open>An iteration with two candidates of equal cost\<close>

lemma tie_initial:
  "initial_state tie_networks =
     \<lparr>st_enabled = {30, 31, 32}, st_counters = [(30, 1), (31, 1), (32, 1)], st_total = 3\<rparr>"
  by (simp add: initial_state_def tie_networks_def get_def Let_def)

lemma sorted_30_31_32: "sorted_list_of_set {30, 31, 32::nat} = [30, 31, 32]" by simp

lemma tie_choose:
  "choose_merge 4 \<lparr>st_enabled = {30, 31, 32}, st_counters = [(30, 1), (31, 1), (32, 1)],
      st_total = 3\<rparr> = Some (30, 31)"
  by (simp add: choose_merge_def sorted_30_31_32 get_def Let_def)

lemma tie_step:
  "loop_step 4 \<lparr>st_enabled = {30, 31, 32}, st_counters = [(30, 1), (31, 1), (32, 1)],
      st_total = 3\<rparr>
     = Some \<lparr>st_enabled = {31, 32}, st_counters = [(30, 0), (31, 3), (32, 1)], st_total = 4\<rparr>"
  by (simp add: loop_step_def tie_choose merge_increase_def apply_merge_def get_def Let_def)

lemma tie_candidates:
  "is_candidate {30, 31, 32} [(30, 1), (31, 1), (32, 1)] 30 31"
  "is_candidate {30, 31, 32} [(30, 1), (31, 1), (32, 1)] 31 32"
  "\<not> is_candidate {30, 31, 32} [(30, 1), (31, 1), (32, 1)] 30 32"
  "merge_cost [(30, 1), (31, 1), (32, 1)] 30 31 = 1"
  "merge_cost [(30, 1), (31, 1), (32, 1)] 31 32 = 1"
  by (simp_all add: is_candidate_def merge_cost_def get_def)

lemma tie_applied:
  "apply_merge \<lparr>st_enabled = {30, 31, 32}, st_counters = [(30, 1), (31, 1), (32, 1)],
      st_total = 3\<rparr> 30 31
     = \<lparr>st_enabled = {31, 32}, st_counters = [(30, 0), (31, 3), (32, 1)], st_total = 4\<rparr>"
  by (simp add: merge_increase_def apply_merge_def get_def Let_def)

subsection \<open>Runs on the other inputs\<close>

lemma acceptable_huge: "compute_acceptable 1 (10 ^ 311) 0 = Inl OverflowError"
  unfolding compute_acceptable_def truediv_huge by simp

lemma empty_initial:
  "initial_state [] = \<lparr>st_enabled = {}, st_counters = [], st_total = 0\<rparr>"
  by (simp add: initial_state_def)

lemma empty_acceptable:
  "compute_acceptable 0 reduce_pct reduce_entries
     = Inr (if 0 < reduce_entries then reduce_entries else 0)"
  by (simp add: compute_acceptable_def py_truediv_def py_int_def)

lemma empty_step:
  "loop_step acceptable \<lparr>st_enabled = {}, st_counters = [], st_total = 0\<rparr> = None"
  by (simp add: loop_step_def choose_merge_def)

lemma empty_result: "ipset_reduce [] reduce_pct reduce_entries max_prefix = Inr {}"
  by (simp add: ipset_reduce_def empty_initial empty_acceptable empty_step
      reduce_loop.simps [of _ "\<lparr>st_enabled = {}, st_counters = [], st_total = 0\<rparr>"])

subsection \<open>Scenario C\<close>

lemma bit_length_15600: "bit_length 15600 = 14" by (simp add: bit_length.simps)

lemma truediv_15600: "py_truediv 15600 100 = Inr (156 * 2 ^ 45, - 45)"
  by (simp add: py_truediv_def quot_exponent_def pow2_le_quot_def bit_length_15600
      bit_length_100 round_half_even_def Let_def)

lemma acceptable_104_50: "compute_acceptable 104 50 0 = Inr 156"
  by (simp add: compute_acceptable_def truediv_15600 py_int_def)

lemma filter_other_length:
  "\<forall>net \<in> set networks. prefixlen net = 30 \<or> prefixlen net = 32 \<Longrightarrow>
   filter (\<lambda>net. prefixlen net \<noteq> 30) networks = filter (\<lambda>net. prefixlen net = 32) networks"
  by (induction networks) auto

lemma filter_nonempty:
  assumes "length (filter P xs) = n" "0 < n"
  shows "\<exists>x \<in> set xs. P x"
proof -
  from assms have "filter P xs \<noteq> []" by auto
  then show ?thesis by (simp add: filter_empty_conv)
qed

lemma sorted_30_32: "sorted_list_of_set {30, 32::nat} = [30, 32]" by simp

lemma scenario_c_run:
  assumes c30: "length (filter (\<lambda>net. prefixlen net = 30) networks) = 4"
    and c32: "length (filter (\<lambda>net. prefixlen net = 32) networks) = 100"
    and only: "\<forall>net \<in> set networks. prefixlen net = 30 \<or> prefixlen net = 32"
  shows "st_total (initial_state networks) = 104"
    and "st_enabled (initial_state networks) = {30, 32}"
    and "loop_step 156 (initial_state networks) = Some (apply_merge (initial_state networks) 30 32)"
    and "st_total (apply_merge (initial_state networks) 30 32) = 116"
    and "st_enabled (apply_merge (initial_state networks) 30 32) = {32}"
    and "loop_step 156 (apply_merge (initial_state networks) 30 32) = None"
proof -
  let ?st = "initial_state networks"
  let ?cs = "st_counters ?st"
  from sum_length_filter_compl [of "\<lambda>net. prefixlen net = 30" networks] c30 c32
  have len: "length networks = 104"
    by (simp add: filter_other_length [OF only])
  then show tot: "st_total ?st = 104" by (simp add: initial_total)
  have "\<exists>net \<in> set networks. prefixlen net = 30"
    using c30 by (rule filter_nonempty) simp
  moreover have "\<exists>net \<in> set networks. prefixlen net = 32"
    using c32 by (rule filter_nonempty) simp
  ultimately show en: "st_enabled ?st = {30, 32}"
    using only unfolding initial_enabled by auto
  have g30: "get ?cs 30 = 4" and g32: "get ?cs 32 = 100"
    using c30 c32 by (simp_all add: initial_get)
  have sc: "scan ?cs [30, 32] (156 * 10, None, None) = (12, Some 30, Some 32)"
    by (simp add: g30 g32 Let_def)
  have ch: "choose_merge 156 ?st = Some (30, 32)"
    unfolding choose_merge_def en sorted_30_32 sc by simp
  have inc: "merge_increase ?cs 30 32 = 12"
    by (simp add: merge_increase_def g30 Let_def)
  show step: "loop_step 156 ?st = Some (apply_merge ?st 30 32)"
    by (simp add: loop_step_def tot ch inc)
  let ?st1 = "apply_merge ?st 30 32"
  show tot1: "st_total ?st1 = 116"
    by (simp add: apply_merge_fields tot inc)
  show en1: "st_enabled ?st1 = {32}"
    by (simp add: apply_merge_fields en)
  have g1: "get (st_counters ?st1) 32 = 116"
    by (simp add: apply_merge_fields g30 g32 inc)
  have sc2: "scan (st_counters ?st1) [32] (156 * 10, None, None) = (156 * 10, None, None)"
    by (simp add: g1)
  have "choose_merge 156 ?st1 = None"
    unfolding choose_merge_def en1 using sc2 by simp
  then show "loop_step 156 ?st1 = None"
    by (simp add: loop_step_def)
qed


lemma scenario_c_counts:
  "length (filter (\<lambda>net. prefixlen net = 30) scenario_c) = 4"
  "length (filter (\<lambda>net. prefixlen net = 32) scenario_c) = 100"
  "\<forall>net \<in> set scenario_c. prefixlen net = 30 \<or> prefixlen net = 32"
  unfolding scenario_c_def by (auto simp: filter_map comp_def)


lemma scenario_c_result:
  assumes "length (filter (\<lambda>net. prefixlen net = 30) networks) = 4"
    and "length (filter (\<lambda>net. prefixlen net = 32) networks) = 100"
    and "\<forall>net \<in> set networks. prefixlen net = 30 \<or> prefixlen net = 32"
  shows "loop_trace 156 (initial_state networks)
           = [initial_state networks, apply_merge (initial_state networks) 30 32]"
    and "ipset_reduce networks 50 0 32 = Inr {32}"
proof -
  note run = scenario_c_run [OF assms]
  have t1: "loop_trace 156 (apply_merge (initial_state networks) 30 32)
      = [apply_merge (initial_state networks) 30 32]"
    by (subst loop_trace.simps) (simp add: run(6))
  show tr: "loop_trace 156 (initial_state networks)
           = [initial_state networks, apply_merge (initial_state networks) 30 32]"
    by (subst loop_trace.simps) (simp add: run(3) t1)
  have "reduce_loop 156 (initial_state networks) = apply_merge (initial_state networks) 30 32"
    using loop_trace_last [of 156 "initial_state networks"] by (simp add: tr)
  then show "ipset_reduce networks 50 0 32 = Inr {32}"
    by (simp add: ipset_reduce_def Let_def run(1,5) acceptable_104_50)
qed

lemma count_list_prefixlen:
  "count_list (map prefixlen nets) p = length (filter (\<lambda>net. prefixlen net = p) nets)"
  by (induction nets) simp_all

lemma scenario_c_length: "length scenario_c = 104"
  by (simp add: scenario_c_def)

section \<open>The claims about the splitter\<close>

text \<open>
  C1. Coverage invariance: for every network range and every allowed set containing the
  maximal prefix length of the range's family, the sub-ranges \<^verbatim>\<open>split_net_enabled\<close> returns are
  networks, are pairwise disjoint, and the union of their addresses is the address set of the
  range; hence, for a list of ranges, splitting every range over the set \<^verbatim>\<open>ipset_reduce\<close>
  returns covers exactly the addresses of the list, and introduces no overlap.
\<close>

theorem coverage_invariance:
  "(valid_net net \<longrightarrow> max_prefixlen net \<in> enabled \<longrightarrow>
      disjoint_ranges (split_net_enabled net enabled) \<and>
      covered (split_net_enabled net enabled) = addresses net \<and>
      list_all valid_net (split_net_enabled net enabled)) \<and>
   ((\<forall>n \<in> set networks. valid_net n) \<longrightarrow>
    ipset_reduce networks reduce_pct reduce_entries W = Inr result \<longrightarrow>
      covered (split_all networks result) = covered networks \<and>
      list_all valid_net (split_all networks result) \<and>
      (disjoint_ranges networks \<longrightarrow> disjoint_ranges (split_all networks result)))"
proof -
  have one: "list_all valid_net (split_net_enabled net enabled)" if "valid_net net"
    unfolding list_all_iff using split_valid [OF that] by blast
  have many: "list_all valid_net (split_all networks result)"
    if "\<forall>n \<in> set networks. valid_net n"
    unfolding list_all_iff using split_all_valid [OF that] by blast
  from one many split_covers [of net enabled] split_all_covers [of networks result]
    split_all_disjoint [of networks result]
  show ?thesis by blast
qed

theorem coverage_invariance_witness:
  "valid_net \<lparr>version = IPv4, network_address = 167772160, prefixlen = 30\<rparr> \<and>
   max_prefixlen \<lparr>version = IPv4, network_address = 167772160, prefixlen = 30\<rparr> \<in> {32} \<and>
   split_net_enabled \<lparr>version = IPv4, network_address = 167772160, prefixlen = 30\<rparr> {32}
    = [\<lparr>version = IPv4, network_address = 167772160, prefixlen = 32\<rparr>,
       \<lparr>version = IPv4, network_address = 167772161, prefixlen = 32\<rparr>,
       \<lparr>version = IPv4, network_address = 167772162, prefixlen = 32\<rparr>,
       \<lparr>version = IPv4, network_address = 167772163, prefixlen = 32\<rparr>] \<and>
   disjoint_ranges
     (split_net_enabled \<lparr>version = IPv4, network_address = 167772160, prefixlen = 30\<rparr> {32}) \<and>
   covered (split_net_enabled \<lparr>version = IPv4, network_address = 167772160, prefixlen = 30\<rparr> {32})
    = addresses \<lparr>version = IPv4, network_address = 167772160, prefixlen = 30\<rparr> \<and>
   list_all valid_net example_networks \<and>
   disjoint_ranges example_networks \<and>
   ipset_reduce example_networks 100 0 32 = Inr {32} \<and>
   covered (split_all example_networks {32}) = covered example_networks \<and>
   disjoint_ranges (split_all example_networks {32})"
proof -
  have v: "valid_net \<lparr>version = IPv4, network_address = 167772160, prefixlen = 30\<rparr>"
    by (simp add: valid_net_def max_prefixlen_def)
  have m: "max_prefixlen \<lparr>version = IPv4, network_address = 167772160, prefixlen = 30\<rparr> \<in> {32}"
    by (simp add: max_prefixlen_def)
  have vs: "\<forall>n \<in> set example_networks. valid_net n"
    by (simp add: example_networks_def valid_net_def max_prefixlen_def)
  have dj: "disjoint_ranges example_networks"
    by (simp add: example_networks_def addresses_def max_prefixlen_def)
  from coverage_invariance
    [of "\<lparr>version = IPv4, network_address = 167772160, prefixlen = 30\<rparr>" "{32}"
        example_networks 100 0 32 "{32}"]
    v m vs dj example_result
  have "disjoint_ranges
     (split_net_enabled \<lparr>version = IPv4, network_address = 167772160, prefixlen = 30\<rparr> {32}) \<and>
     covered (split_net_enabled \<lparr>version = IPv4, network_address = 167772160, prefixlen = 30\<rparr> {32})
      = addresses \<lparr>version = IPv4, network_address = 167772160, prefixlen = 30\<rparr> \<and>
     covered (split_all example_networks {32}) = covered example_networks \<and>
     disjoint_ranges (split_all example_networks {32})"
    by blast
  with v m vs dj example_result split_30 show ?thesis
    by (simp only: list_all_iff simp_thms)
qed


text \<open>
  C8. Identity on native lengths: a range whose own prefix length is in the allowed set is
  returned as the one-element list holding that range, unchanged; hence when the prefix
  length of every range of a list is in the allowed set, splitting the list leaves it
  unchanged.
\<close>

theorem split_identity_on_native:
  "(prefixlen net \<in> enabled \<longrightarrow> split_net_enabled net enabled = [net]) \<and>
   ((\<forall>n \<in> set nets. prefixlen n \<in> enabled) \<longrightarrow> split_all nets enabled = nets)"
  by (simp add: split_native split_all_native)

theorem split_identity_on_native_witness:
  "prefixlen \<lparr>version = IPv4, network_address = 167772160, prefixlen = 24\<rparr> \<in> {24, 32} \<and>
   split_net_enabled \<lparr>version = IPv4, network_address = 167772160, prefixlen = 24\<rparr> {24, 32}
     = [\<lparr>version = IPv4, network_address = 167772160, prefixlen = 24\<rparr>] \<and>
   prefixlen \<lparr>version = IPv4, network_address = 167772672, prefixlen = 32\<rparr> \<in> {24, 32} \<and>
   split_all [\<lparr>version = IPv4, network_address = 167772160, prefixlen = 24\<rparr>,
              \<lparr>version = IPv4, network_address = 167772672, prefixlen = 32\<rparr>] {24, 32}
     = [\<lparr>version = IPv4, network_address = 167772160, prefixlen = 24\<rparr>,
        \<lparr>version = IPv4, network_address = 167772672, prefixlen = 32\<rparr>]"
  using split_identity_on_native
    [of "\<lparr>version = IPv4, network_address = 167772160, prefixlen = 24\<rparr>" "{24, 32}"
        "[\<lparr>version = IPv4, network_address = 167772160, prefixlen = 24\<rparr>,
          \<lparr>version = IPv4, network_address = 167772672, prefixlen = 32\<rparr>]"]
  by simp

text \<open>
  C10. For a network range and any allowed set, every sub-range the splitter returns has a
  prefix length that is in the allowed set or equal to the maximal prefix length of the
  range's family; when that maximal length is in the allowed set, no call reaches the
  fallback branch and every returned prefix length is in the allowed set.
\<close>

theorem split_prefixlen_allowed:
  assumes "valid_net net"
  shows "(\<forall>sub \<in> set (split_net_enabled net enabled).
            prefixlen sub \<in> enabled \<or> prefixlen sub = max_prefixlen net) \<and>
         (max_prefixlen net \<in> enabled \<longrightarrow>
            \<not> uses_fallback net enabled \<and>
            (\<forall>sub \<in> set (split_net_enabled net enabled). prefixlen sub \<in> enabled))"
proof -
  from assms have le: "prefixlen net \<le> max_prefixlen net"
    by (simp add: valid_net_def)
  have a: "prefixlen sub \<in> enabled \<or> prefixlen sub = max_prefixlen net"
    if "sub \<in> set (split_net_enabled net enabled)" for sub
    using split_prefixlen [OF le that] by simp
  have b: "prefixlen sub \<in> enabled"
    if "max_prefixlen net \<in> enabled" "sub \<in> set (split_net_enabled net enabled)" for sub
    using a [OF that(2)] that(1) by auto
  from a b no_fallback [OF le, of enabled] show ?thesis
    by blast
qed

theorem split_prefixlen_allowed_witness:
  "valid_net \<lparr>version = IPv4, network_address = 167772160, prefixlen = 31\<rparr> \<and>
   max_prefixlen \<lparr>version = IPv4, network_address = 167772160, prefixlen = 31\<rparr> \<in> {32} \<and>
   \<lparr>version = IPv4, network_address = 167772161, prefixlen = 32\<rparr>
     \<in> set (split_net_enabled \<lparr>version = IPv4, network_address = 167772160, prefixlen = 31\<rparr> {32}) \<and>
   \<not> uses_fallback \<lparr>version = IPv4, network_address = 167772160, prefixlen = 31\<rparr> {32} \<and>
   prefixlen \<lparr>version = IPv4, network_address = 167772161, prefixlen = 32\<rparr> \<in> {32}"
proof -
  have v: "valid_net \<lparr>version = IPv4, network_address = 167772160, prefixlen = 31\<rparr>"
    by (simp add: valid_net_def max_prefixlen_def)
  have m: "max_prefixlen \<lparr>version = IPv4, network_address = 167772160, prefixlen = 31\<rparr> \<in> {32}"
    by (simp add: max_prefixlen_def)
  from split_prefixlen_allowed [OF v, of "{32}"] m v show ?thesis
    by (simp add: split_31)
qed

section \<open>The claims about the reducer\<close>

text \<open>
  C2, as amended. For every input whose ranges have prefix-length counts \<open>{30: 4, 32: 100}\<close>,
  with \<^verbatim>\<open>reduce_pct = 50\<close>, \<^verbatim>\<open>reduce_entries = 0\<close> and \<open>W = 32\<close>, the initial total is 104 and the
  ceiling 156; the loop applies exactly one merge, of length 30 into length 32 at an increase
  of \<open>4 * (2 ^ 2 - 1) = 12\<close>, the total becomes 116, and \<^verbatim>\<open>ipset_reduce\<close> returns \<open>{32}\<close>.
\<close>

theorem scenario_c_merges:
  assumes "length (filter (\<lambda>net. prefixlen net = 30) networks) = 4"
    and "length (filter (\<lambda>net. prefixlen net = 32) networks) = 100"
    and "\<forall>net \<in> set networks. prefixlen net = 30 \<or> prefixlen net = 32"
  shows "st_total (initial_state networks) = 104 \<and>
         compute_acceptable (st_total (initial_state networks)) 50 0 = Inr 156 \<and>
         loop_trace 156 (initial_state networks)
           = [initial_state networks, apply_merge (initial_state networks) 30 32] \<and>
         merge_increase (st_counters (initial_state networks)) 30 32 = 12 \<and>
         st_total (apply_merge (initial_state networks) 30 32) = 116 \<and>
         ipset_reduce networks 50 0 32 = Inr {32}"
proof -
  note run = scenario_c_run [OF assms]
  have "merge_increase (st_counters (initial_state networks)) 30 32 = 12"
    using run(1,4) by (simp add: apply_merge_fields)
  with run(1,4) scenario_c_result [OF assms] acceptable_104_50 show ?thesis
    by simp
qed

theorem scenario_c_merges_witness:
  "length (filter (\<lambda>net. prefixlen net = 30) scenario_c) = 4 \<and>
   length (filter (\<lambda>net. prefixlen net = 32) scenario_c) = 100 \<and>
   list_all (\<lambda>net. prefixlen net = 30 \<or> prefixlen net = 32) scenario_c \<and>
   st_total (apply_merge (initial_state scenario_c) 30 32) = 116 \<and>
   ipset_reduce scenario_c 50 0 32 = Inr {32}"
  using scenario_c_merges [OF scenario_c_counts] scenario_c_counts
  by (simp add: list_all_iff)

text \<open>
  C2 as stated, that no merge is performed and \<open>{30, 32}\<close> is returned, fails on such an input.
\<close>

theorem scenario_c_counterexample:
  "count_list (map prefixlen scenario_c) 30 = 4 \<and>
   count_list (map prefixlen scenario_c) 32 = 100 \<and>
   length scenario_c = 104 \<and>
   ipset_reduce scenario_c 50 0 32 = Inr {32} \<and>
   ipset_reduce scenario_c 50 0 32 \<noteq> Inr {30, 32}"
proof -
  have r: "ipset_reduce scenario_c 50 0 32 = Inr {32}"
    using scenario_c_counts by (rule scenario_c_result)
  have "{32::nat} \<noteq> {30, 32}" by auto
  with r have "ipset_reduce scenario_c 50 0 32 \<noteq> Inr {30, 32}" by simp
  with r scenario_c_counts(1,2) scenario_c_length show ?thesis
    by (simp only: count_list_prefixlen simp_thms)
qed

text \<open>
  C4. Greedy selection rule: in every iteration of the reduction loop that applies a merge,
  the merge applied is that of a pair \<open>(i, j)\<close> where \<open>i\<close> is an enabled length with a non-zero
  count and \<open>j\<close> is the nearest strictly longer enabled length with a non-zero count; its cost
  \<open>counters[i] * (2 ^ (j - i) - 1)\<close>, which is also the increase the loop recomputes, is the
  least over all such pairs of that iteration, and among pairs of equal cost the one with the
  smaller source length \<open>i\<close> is taken.
\<close>

theorem greedy_selection_rule:
  assumes "loop_step acceptable st = Some st'"
  shows "\<exists>i j. st' = apply_merge st i j \<and>
           is_candidate (st_enabled st) (st_counters st) i j \<and>
           merge_increase (st_counters st) i j = merge_cost (st_counters st) i j \<and>
           (\<forall>i' j'. is_candidate (st_enabled st) (st_counters st) i' j' \<longrightarrow>
              merge_cost (st_counters st) i j \<le> merge_cost (st_counters st) i' j' \<and>
              (merge_cost (st_counters st) i' j' = merge_cost (st_counters st) i j
                 \<longrightarrow> i \<le> i'))"
proof -
  from assms obtain i j where ch: "choose_merge acceptable st = Some (i, j)"
    and st': "st' = apply_merge st i j"
    by (rule loop_step_cases)
  from choose_merge_spec [OF ch] st' merge_increase_cost [of "st_counters st" i j]
  show ?thesis by blast
qed

theorem greedy_selection_rule_witness:
  "initial_state tie_networks =
     \<lparr>st_enabled = {30, 31, 32}, st_counters = [(30, 1), (31, 1), (32, 1)], st_total = 3\<rparr> \<and>
   loop_step 4 \<lparr>st_enabled = {30, 31, 32}, st_counters = [(30, 1), (31, 1), (32, 1)],
      st_total = 3\<rparr>
     = Some \<lparr>st_enabled = {31, 32}, st_counters = [(30, 0), (31, 3), (32, 1)], st_total = 4\<rparr> \<and>
   is_candidate {30, 31, 32} [(30, 1), (31, 1), (32, 1)] 30 31 \<and>
   is_candidate {30, 31, 32} [(30, 1), (31, 1), (32, 1)] 31 32 \<and>
   \<not> is_candidate {30, 31, 32} [(30, 1), (31, 1), (32, 1)] 30 32 \<and>
   merge_cost [(30, 1), (31, 1), (32, 1)] 30 31 = 1 \<and>
   merge_cost [(30, 1), (31, 1), (32, 1)] 31 32 = 1 \<and>
   \<lparr>st_enabled = {31, 32}, st_counters = [(30, 0), (31, 3), (32, 1)], st_total = 4\<rparr>
     = apply_merge \<lparr>st_enabled = {30, 31, 32}, st_counters = [(30, 1), (31, 1), (32, 1)],
         st_total = 3\<rparr> 30 31 \<and>
   (\<exists>i j. \<lparr>st_enabled = {31, 32}, st_counters = [(30, 0), (31, 3), (32, 1)], st_total = 4\<rparr>
            = apply_merge \<lparr>st_enabled = {30, 31, 32},
                st_counters = [(30, 1), (31, 1), (32, 1)], st_total = 3\<rparr> i j \<and>
          is_candidate {30, 31, 32} [(30, 1), (31, 1), (32, 1)] i j \<and>
          merge_increase [(30, 1), (31, 1), (32, 1)] i j
            = merge_cost [(30, 1), (31, 1), (32, 1)] i j \<and>
          (\<forall>i' j'. is_candidate {30, 31, 32} [(30, 1), (31, 1), (32, 1)] i' j' \<longrightarrow>
             merge_cost [(30, 1), (31, 1), (32, 1)] i j
               \<le> merge_cost [(30, 1), (31, 1), (32, 1)] i' j' \<and>
             (merge_cost [(30, 1), (31, 1), (32, 1)] i' j'
                = merge_cost [(30, 1), (31, 1), (32, 1)] i j \<longrightarrow> i \<le> i')))"
proof -
  note sel = greedy_selection_rule [OF tie_step]
  from sel have ex: "\<exists>i j. \<lparr>st_enabled = {31, 32}, st_counters = [(30, 0), (31, 3), (32, 1)],
        st_total = 4\<rparr>
            = apply_merge \<lparr>st_enabled = {30, 31, 32},
                st_counters = [(30, 1), (31, 1), (32, 1)], st_total = 3\<rparr> i j \<and>
          is_candidate {30, 31, 32} [(30, 1), (31, 1), (32, 1)] i j \<and>
          merge_increase [(30, 1), (31, 1), (32, 1)] i j
            = merge_cost [(30, 1), (31, 1), (32, 1)] i j \<and>
          (\<forall>i' j'. is_candidate {30, 31, 32} [(30, 1), (31, 1), (32, 1)] i' j' \<longrightarrow>
             merge_cost [(30, 1), (31, 1), (32, 1)] i j
               \<le> merge_cost [(30, 1), (31, 1), (32, 1)] i' j' \<and>
             (merge_cost [(30, 1), (31, 1), (32, 1)] i' j'
                = merge_cost [(30, 1), (31, 1), (32, 1)] i j \<longrightarrow> i \<le> i'))"
    by simp
  show ?thesis
    using tie_initial tie_step tie_candidates tie_applied [symmetric] ex
    by (intro conjI)
qed

text \<open>
  C6. Monotonicity within one run: along the states at the head of the loop, in order, the
  running total never decreases and the enabled set only loses elements; the enabled set
  starts as the set of prefix lengths present in the input, so the returned set is a subset
  of these.
\<close>

theorem monotone_run:
  "sorted_wrt (\<lambda>s s'. st_total s \<le> st_total s' \<and> st_enabled s' \<subseteq> st_enabled s)
     (loop_trace acceptable (initial_state networks)) \<and>
   st_enabled (initial_state networks) = prefixlen ` set networks \<and>
   (ipset_reduce networks reduce_pct reduce_entries max_prefix = Inr result \<longrightarrow>
      result \<subseteq> prefixlen ` set networks)"
proof -
  let ?R = "\<lambda>s s'. st_total s \<le> st_total s' \<and> st_enabled s' \<subseteq> st_enabled s"
  have srt: "sorted_wrt ?R (loop_trace acc (initial_state networks))" for acc
  proof (rule loop_trace_sorted [where P = counts_nonneg])
    show "counts_nonneg (initial_state networks)"
      by (rule initial_counts_nonneg)
  next
    fix s s' assume "counts_nonneg s" "loop_step acc s = Some s'"
    then show "counts_nonneg s' \<and> ?R s s'"
      using loop_step_counts_nonneg loop_step_monotone by blast
  next
    fix a b c assume "?R a b" "?R b c"
    then show "?R a c" by auto
  qed
  have sub: "result \<subseteq> prefixlen ` set networks"
    if "ipset_reduce networks reduce_pct reduce_entries max_prefix = Inr result"
  proof -
    from that obtain acc where
      res: "result = st_enabled (reduce_loop acc (initial_state networks))"
      by (rule ipset_reduce_result)
    obtain rest where tr: "loop_trace acc (initial_state networks) = initial_state networks # rest"
      using loop_trace.simps [of acc "initial_state networks"] by simp
    from reduce_loop_in_trace [of acc "initial_state networks"] srt [of acc] tr
    have "st_enabled (reduce_loop acc (initial_state networks))
          \<subseteq> st_enabled (initial_state networks)"
      by auto
    then show ?thesis by (simp add: res initial_enabled)
  qed
  from srt sub show ?thesis by (simp add: initial_enabled)
qed

theorem monotone_run_witness:
  "ipset_reduce example_networks 100 0 32 = Inr {32} \<and>
   {32} \<subseteq> prefixlen ` set example_networks \<and>
   loop_trace 6 (initial_state example_networks) =
     [\<lparr>st_enabled = {30, 32}, st_counters = [(30, 1), (32, 2)], st_total = 3\<rparr>,
      \<lparr>st_enabled = {32}, st_counters = [(30, 0), (32, 6)], st_total = 6\<rparr>] \<and>
   sorted_wrt (\<lambda>s s'. st_total s \<le> st_total s' \<and> st_enabled s' \<subseteq> st_enabled s)
     (loop_trace 6 (initial_state example_networks))"
  using monotone_run [of 6 example_networks 100 0 32 "{32}"] example_result example_trace
  by simp

text \<open>
  C5. The maximal prefix length \<open>W\<close> is never removed: for a list of networks of the family
  of width \<open>W\<close> that holds a range of prefix length \<open>W\<close>, the set \<^verbatim>\<open>ipset_reduce\<close> returns
  contains \<open>W\<close>, whatever \<^verbatim>\<open>reduce_pct\<close> and \<^verbatim>\<open>reduce_entries\<close> are; so splitting any of the
  ranges over the returned set never reaches the fallback branch, and every sub-range has a
  prefix length of the returned set.
\<close>

theorem max_prefix_kept:
  assumes nets: "\<forall>net \<in> set networks. valid_net net \<and> max_prefixlen net = W"
    and host: "\<exists>net \<in> set networks. prefixlen net = W"
    and res: "ipset_reduce networks reduce_pct reduce_entries W = Inr result"
  shows "W \<in> result \<and>
         (\<forall>net \<in> set networks.
            \<not> uses_fallback net result \<and>
            (\<forall>sub \<in> set (split_net_enabled net result). prefixlen sub \<in> result))"
proof -
  from res obtain acc where
    result: "result = st_enabled (reduce_loop acc (initial_state networks))"
    by (rule ipset_reduce_result)
  have le: "prefixlen net \<le> W" if "net \<in> set networks" for net
    using nets that by (auto simp: valid_net_def)
  have init: "W \<in> st_enabled (initial_state networks) \<and>
      st_enabled (initial_state networks) \<subseteq> {..W}"
    using host le by (auto simp: initial_enabled)
  have "\<forall>s \<in> set (loop_trace acc (initial_state networks)).
          W \<in> st_enabled s \<and> st_enabled s \<subseteq> {..W}"
    using init loop_step_keeps_max by (rule loop_trace_invariant)
  with reduce_loop_in_trace [of acc "initial_state networks"] have W: "W \<in> result"
    by (simp add: result)
  have "\<not> uses_fallback net result \<and>
        (\<forall>sub \<in> set (split_net_enabled net result). prefixlen sub \<in> result)"
    if "net \<in> set networks" for net
  proof -
    from nets that have v: "valid_net net" and m: "max_prefixlen net = W" by simp_all
    from v have l: "prefixlen net \<le> max_prefixlen net" by (simp add: valid_net_def)
    have "prefixlen sub \<in> result" if "sub \<in> set (split_net_enabled net result)" for sub
      using split_prefixlen [OF l that] W m by auto
    with no_fallback [OF l, of result] W m show ?thesis by simp
  qed
  with W show ?thesis by blast
qed

theorem max_prefix_kept_witness:
  "valid_net \<lparr>version = IPv4, network_address = 167772160, prefixlen = 30\<rparr> \<and>
   max_prefixlen \<lparr>version = IPv4, network_address = 167772160, prefixlen = 30\<rparr> = 32 \<and>
   \<lparr>version = IPv4, network_address = 167772168, prefixlen = 32\<rparr> \<in> set example_networks \<and>
   prefixlen \<lparr>version = IPv4, network_address = 167772168, prefixlen = 32\<rparr> = 32 \<and>
   ipset_reduce example_networks 100 0 32 = Inr {32} \<and>
   32 \<in> {32::nat} \<and>
   \<not> uses_fallback \<lparr>version = IPv4, network_address = 167772160, prefixlen = 30\<rparr> {32}"
proof -
  have nets: "\<forall>net \<in> set example_networks. valid_net net \<and> max_prefixlen net = 32"
    by (simp add: example_networks_def valid_net_def max_prefixlen_def)
  have host: "\<exists>net \<in> set example_networks. prefixlen net = 32"
    by (simp add: example_networks_def)
  have mem: "\<lparr>version = IPv4, network_address = 167772160, prefixlen = 30\<rparr>
      \<in> set example_networks"
    by (simp add: example_networks_def)
  from max_prefix_kept [OF nets host example_result] mem
  have "\<not> uses_fallback \<lparr>version = IPv4, network_address = 167772160, prefixlen = 30\<rparr> {32}"
    by blast
  with nets mem example_result show ?thesis
    by (simp add: example_networks_def)
qed

text \<open>
  C3. Ceiling respect: a merge is applied only when \<open>total + increase \<le> acceptable\<close>, and a
  selected merge that would pass the ceiling ends the loop without being applied; so for
  every input with \<^verbatim>\<open>reduce_pct\<close> \<open>\<ge> 0\<close> for which the ceiling is computed, the running total is at
  most the ceiling at every head of the loop and at return. The list has at most \<open>2 ^ 53\<close>
  ranges, as every list a machine can hold has.
\<close>

theorem ceiling_respected:
  assumes acc: "compute_acceptable (st_total (initial_state networks)) reduce_pct reduce_entries
                  = Inr acceptable"
    and pct: "0 \<le> reduce_pct"
    and len: "length networks \<le> 2 ^ 53"
  shows "(\<forall>s \<in> set (loop_trace acceptable (initial_state networks)).
            st_total s \<le> acceptable \<and>
            (\<forall>s'. loop_step acceptable s = Some s' \<longrightarrow>
               (\<exists>i j. choose_merge acceptable s = Some (i, j) \<and> s' = apply_merge s i j \<and>
                  st_total s + merge_increase (st_counters s) i j \<le> acceptable)) \<and>
            (\<forall>i j. choose_merge acceptable s = Some (i, j) \<and>
               st_total s + merge_increase (st_counters s) i j > acceptable \<longrightarrow>
               loop_step acceptable s = None)) \<and>
         st_total (reduce_loop acceptable (initial_state networks)) \<le> acceptable"
proof -
  have "int (length networks) \<le> 2 ^ 53"
    using len by (metis of_nat_le_iff of_nat_numeral of_nat_power)
  then have init: "st_total (initial_state networks) \<le> acceptable"
    using compute_acceptable_ge_total [OF acc pct] by (simp add: initial_total)
  have inv: "\<forall>s \<in> set (loop_trace acceptable (initial_state networks)).
      st_total s \<le> acceptable"
    using init loop_step_below_ceiling by (rule loop_trace_invariant)
  have applied: "\<exists>i j. choose_merge acceptable s = Some (i, j) \<and> s' = apply_merge s i j \<and>
      st_total s + merge_increase (st_counters s) i j \<le> acceptable"
    if "loop_step acceptable s = Some s'" for s s'
    using that by (elim loop_step_cases) blast
  have rejected: "loop_step acceptable s = None"
    if "choose_merge acceptable s = Some (i, j)"
      "st_total s + merge_increase (st_counters s) i j > acceptable" for s i j
    using that by (simp add: loop_step_def)
  from inv reduce_loop_in_trace [of acceptable "initial_state networks"]
  have "st_total (reduce_loop acceptable (initial_state networks)) \<le> acceptable"
    by blast
  with inv applied rejected show ?thesis by blast
qed

theorem ceiling_respected_witness:
  "compute_acceptable (st_total (initial_state example_networks)) 100 0 = Inr 6 \<and>
   (0::int) \<le> 100 \<and> length example_networks \<le> 2 ^ 53 \<and>
   reduce_loop 6 (initial_state example_networks)
     = \<lparr>st_enabled = {32}, st_counters = [(30, 0), (32, 6)], st_total = 6\<rparr> \<and>
   st_total (reduce_loop 6 (initial_state example_networks)) \<le> 6"
proof -
  have pct: "(0::int) \<le> 100" by simp
  have len: "length example_networks \<le> 2 ^ 53" by (simp add: example_networks_def)
  from ceiling_respected [OF example_acceptable pct len]
  have "st_total (reduce_loop 6 (initial_state example_networks)) \<le> 6" by blast
  with example_acceptable len example_loop show ?thesis by simp
qed

text \<open>
  C7. The claim is that the ceiling is the exact \<open>max (total * (100 + reduce_pct) div 100)
  min_entries\<close>. For one range and \<^verbatim>\<open>reduce_pct = 28147497671065499\<close> the exact quotient is
  \<open>2 ^ 48 - 1 / 100\<close>, of floor \<open>281474976710655\<close>, and the code's ceiling is \<open>281474976710656\<close>:
  the float nearest to the quotient is \<open>2 ^ 48\<close>.
\<close>

theorem ceiling_inexact:
  "st_total (initial_state single_host) = 1 \<and>
   compute_acceptable (st_total (initial_state single_host)) 28147497671065499 0
     = Inr 281474976710656 \<and>
   max ((1 * (100 + 28147497671065499)) div 100) 0 = (281474976710655::int)"
  using acceptable_inexact by (simp add: initial_total single_host_def)

text \<open>
  C9. The claim is that \<^verbatim>\<open>ipset_reduce\<close> fails on no input and returns the empty set for the
  empty list. The second part holds for every \<^verbatim>\<open>reduce_pct\<close> and \<^verbatim>\<open>reduce_entries\<close>; for the
  first, on one range and \<^verbatim>\<open>reduce_pct = 10 ^ 311\<close> the true division raises
  \<^verbatim>\<open>OverflowError\<close>.
\<close>

theorem overflow_on_huge_percentage:
  "ipset_reduce single_host (10 ^ 311) 0 128 = Inl OverflowError \<and>
   ipset_reduce [] reduce_pct reduce_entries max_prefix = Inr {}"
proof -
  have "st_total (initial_state single_host) = 1"
    by (simp add: initial_total single_host_def)
  then have "ipset_reduce single_host (10 ^ 311) 0 128 = Inl OverflowError"
    unfolding ipset_reduce_def Let_def by (simp only: acceptable_huge sum.case)
  with empty_result show ?thesis by simp
qed

end
